theory Spec2Isabelle
  imports Complex_Main
begin

section \<open>Data model of the API runner (src/automation/api_automation.py)\<close>

text \<open>
  A Python exception object: its class name and \<open>str(e)\<close>. Only instances of
  \<open>Exception\<close> are modelled, which is what the \<open>except Exception\<close> clauses of the
  runners catch; interpreter signals such as \<open>KeyboardInterrupt\<close> are outside the model.
\<close>

datatype exn = Exn (exn_class: string) (str_exn: string)

text \<open>
  A value as the configuration file can hold it under a key: \<open>null\<close>, a boolean, an integer,
  another number, a string, or something else (a list, a dictionary) known by the name of
  its type only.
\<close>

datatype pyobj =
    PyNone
  | PyBool bool
  | PyInt int
  | PyFloat real
  | PyStr string
  | PyOther string

text \<open>\<open>type(v).__name__\<close>, as the messages of \<open>TypeError\<close> and \<open>AttributeError\<close> print it.\<close>

fun type_name :: "pyobj \<Rightarrow> string" where
  "type_name PyNone = ''NoneType''"
| "type_name (PyBool b) = ''bool''"
| "type_name (PyInt n) = ''int''"
| "type_name (PyFloat x) = ''float''"
| "type_name (PyStr s) = ''str''"
| "type_name (PyOther t) = t"

text \<open>A name between single quotes.\<close>

definition quoted :: "string \<Rightarrow> string" where
  "quoted s = CHR 0x27 # s @ [CHR 0x27]"

text \<open>
  What \<open>range(v)\<close> makes of its argument: an integer is taken as it is, a boolean counts as
  0 or 1, and anything else raises \<open>TypeError\<close>.
\<close>

fun range_stop :: "pyobj \<Rightarrow> exn + int" where
  "range_stop (PyInt n) = Inr n"
| "range_stop (PyBool b) = Inr (if b then 1 else 0)"
| "range_stop v =
     Inl (Exn ''TypeError'' (quoted (type_name v) @ '' object cannot be interpreted as an integer''))"

text \<open>The values stored in the result dictionaries, and a dictionary as a key/value list.\<close>

datatype pyval =
    PStr string
  | PInt int
  | PHeaders "(string \<times> string) list"
  | PList "string list"

type_synonym pydict = "(string \<times> pyval) list"

text \<open>
  An entry of \<open>config['endpoints']\<close>. \<open>endpoint.get('method', 'GET')\<close> has a default, so
  the method is optional, and when present it is whatever the configuration holds, a
  string or not; headers, params and data default to the empty dictionary.
\<close>

record endpoint =
  ep_url :: string
  ep_method :: "pyobj option"
  ep_headers :: "(string \<times> string) list"
  ep_params :: "(string \<times> string) list"
  ep_data :: "(string \<times> string) list"

text \<open>What the HTTP session is asked to do: the four calls of \<open>make_request\<close>.\<close>

datatype http_call =
    SessionGet string "(string \<times> string) list" "(string \<times> string) list"
  | SessionPost string "(string \<times> string) list" "(string \<times> string) list" "(string \<times> string) list"
  | SessionPut string "(string \<times> string) list" "(string \<times> string) list" "(string \<times> string) list"
  | SessionDelete string "(string \<times> string) list" "(string \<times> string) list"

record response =
  resp_status :: int
  resp_headers :: "(string \<times> string) list"
  resp_text :: string

text \<open>
  The world one unit of work runs in: \<open>str_upper\<close> is Python's \<open>str.upper\<close>, taken as it is
  (it knows all of Unicode); \<open>rnd a\<close> is the value \<open>random.random()\<close> yields in attempt
  \<open>a\<close> (attempts counted from 0); and \<open>http c a\<close> is what the session does with call \<open>c\<close> in
  attempt \<open>a\<close>: it raises or it answers.
\<close>

record env =
  str_upper :: "string \<Rightarrow> string"
  rnd :: "nat \<Rightarrow> real"
  http :: "http_call \<Rightarrow> nat \<Rightarrow> exn + response"

text \<open>The observable effects of a unit, in program order.\<close>

datatype event =
    PaceSleep real
  | Request http_call
  | PageGet string
  | LogWarning nat string
  | BackoffSleep nat
  | LogError int
  | LogErrorMsg string

text \<open>
  The fields \<open>__init__\<close> stores. The retry count is whatever the configuration holds under
  \<open>retry\<close>, an integer or not. The delay range is the pair of bounds that the call of
  \<open>random.uniform\<close> unpacks.
\<close>

record executor =
  endpoints :: "endpoint list"
  concurrency :: int
  retry_count :: pyobj
  delay_range :: "real \<times> real"

text \<open>The configuration dictionary, each key present or absent.\<close>

record config =
  cfg_endpoints :: "endpoint list option"
  cfg_concurrency :: "int option"
  cfg_retry :: "pyobj option"
  cfg_delay_range :: "(real \<times> real) option"

section \<open>Construction\<close>

text \<open>\<open>dict.get(key, default)\<close>.\<close>

definition get_default :: "'a option \<Rightarrow> 'a \<Rightarrow> 'a" where
  "get_default v d = (case v of None \<Rightarrow> d | Some x \<Rightarrow> x)"

text \<open>
  \<open>APIAutomation.__init__\<close>: four \<open>config.get\<close> calls with defaults and no check of the
  values. The result is a sum so that a raise would be the value \<open>Inl\<close>; the source has none
  for these keys. The set-up of the logger that follows in the source is left out.
\<close>

definition init :: "config \<Rightarrow> exn + executor" where
  "init cfg = Inr \<lparr> endpoints = get_default (cfg_endpoints cfg) [],
                    concurrency = get_default (cfg_concurrency cfg) 5,
                    retry_count = get_default (cfg_retry cfg) (PyInt 3),
                    delay_range = get_default (cfg_delay_range cfg) (1, 3) \<rparr>"

section \<open>One unit of work: \<open>make_request\<close>\<close>

text \<open>
  \<open>endpoint.get('method', 'GET').upper()\<close>, the second statement of \<open>make_request\<close> and
  outside its \<open>try\<close>: a string is upper-cased, and any other value has no method \<open>upper\<close>.
\<close>

definition method_upper :: "env \<Rightarrow> endpoint \<Rightarrow> exn + string" where
  "method_upper w ep =
     (case get_default (ep_method ep) (PyStr ''GET'') of
        PyStr s \<Rightarrow> Inr (str_upper w s)
      | v \<Rightarrow>
          Inl (Exn ''AttributeError''
                 (quoted (type_name v) @ '' object has no attribute '' @ quoted ''upper'')))"

text \<open>\<open>random.uniform(a, b)\<close> is \<open>a + (b - a) * random()\<close>.\<close>

definition uniform :: "real \<times> real \<Rightarrow> real \<Rightarrow> real" where
  "uniform r u = fst r + (snd r - fst r) * u"

text \<open>The dictionary returned after an answer, the same in all four branches.\<close>

definition response_dict :: "string \<Rightarrow> response \<Rightarrow> pydict" where
  "response_dict u r =
     [(''url'', PStr u), (''status'', PInt (resp_status r)),
      (''headers'', PHeaders (resp_headers r)), (''data'', PStr (resp_text r))]"

text \<open>The dictionary returned when the last attempt has failed.\<close>

definition error_dict :: "string \<Rightarrow> exn \<Rightarrow> pydict" where
  "error_dict u e = [(''url'', PStr u), (''error'', PStr (str_exn e))]"

text \<open>The \<open>if/elif\<close> chain on the upper-cased method \<open>m\<close>; \<open>None\<close> is the final \<open>else\<close>.\<close>

definition dispatch :: "endpoint \<Rightarrow> string \<Rightarrow> http_call option" where
  "dispatch ep m =
     (if m = ''GET'' then Some (SessionGet (ep_url ep) (ep_headers ep) (ep_params ep))
      else if m = ''POST'' then
        Some (SessionPost (ep_url ep) (ep_headers ep) (ep_params ep) (ep_data ep))
      else if m = ''PUT'' then
        Some (SessionPut (ep_url ep) (ep_headers ep) (ep_params ep) (ep_data ep))
      else if m = ''DELETE'' then
        Some (SessionDelete (ep_url ep) (ep_headers ep) (ep_params ep))
      else None)"

definition unsupported_method :: "string \<Rightarrow> exn" where
  "unsupported_method m = Exn ''ValueError'' (''Unsupported HTTP method: '' @ m)"

text \<open>
  The body of the \<open>try\<close> block in attempt \<open>a\<close>: the pacing sleep, then the branch of the
  method. The result is the effects and either the exception raised or the dictionary
  returned.
\<close>

definition try_body ::
  "executor \<Rightarrow> env \<Rightarrow> endpoint \<Rightarrow> string \<Rightarrow> nat \<Rightarrow> event list \<times> (exn + pydict)" where
  "try_body ex w ep m a =
     (let delay = uniform (delay_range ex) (rnd w a) in
      case dispatch ep m of
        Some c \<Rightarrow>
          ([PaceSleep delay, Request c],
           (case http w c a of Inl e \<Rightarrow> Inl e | Inr r \<Rightarrow> Inr (response_dict (ep_url ep) r)))
      | None \<Rightarrow> ([PaceSleep delay], Inl (unsupported_method m)))"

text \<open>
  The \<open>for attempt in range(self.retry_count)\<close> loop from attempt \<open>a\<close> on, for the
  upper-cased method \<open>m\<close> and the integer \<open>rc\<close> that \<open>range\<close> has accepted as the retry count.
  Leaving the loop without a \<open>return\<close> ends the function, whose value is then Python's
  \<open>None\<close>.
\<close>

function attempts_from ::
  "executor \<Rightarrow> env \<Rightarrow> endpoint \<Rightarrow> string \<Rightarrow> int \<Rightarrow> nat \<Rightarrow>
   event list \<times> (exn + pydict option)" where
  "attempts_from ex w ep m rc a =
     (if int a < rc then
        (case try_body ex w ep m a of
           (tr, Inr d) \<Rightarrow> (tr, Inr (Some d))
         | (tr, Inl e) \<Rightarrow>
             if int a < rc - 1 then
               (case attempts_from ex w ep m rc (Suc a) of
                  (tr', r) \<Rightarrow> (tr @ [LogWarning (a + 1) (str_exn e), BackoffSleep (2 ^ a)] @ tr', r))
             else
               (tr @ [LogWarning (a + 1) (str_exn e), LogError rc],
                Inr (Some (error_dict (ep_url ep) e))))
      else ([], Inr None))"
  by pat_completeness auto
termination
  by (relation "measure (\<lambda>(ex, w, ep, m, rc, a). nat (rc - int a))") auto

text \<open>
  \<open>make_request\<close>: the method is upper-cased and the range of the loop is built before the
  \<open>try\<close> is entered, so what these two raise goes to the caller; then the loop.
\<close>

definition make_request ::
  "executor \<Rightarrow> env \<Rightarrow> endpoint \<Rightarrow> event list \<times> (exn + pydict option)" where
  "make_request ex w ep =
     (case method_upper w ep of
        Inl e \<Rightarrow> ([], Inl e)
      | Inr m \<Rightarrow>
          (case range_stop (retry_count ex) of
             Inl e \<Rightarrow> ([], Inl e)
           | Inr rc \<Rightarrow> attempts_from ex w ep m rc 0))"

section \<open>The batch: \<open>run_async\<close>\<close>

text \<open>
  \<open>asyncio.Semaphore(value)\<close> raises \<open>ValueError\<close> for a negative value and otherwise
  starts with that many free slots.
\<close>

definition Semaphore :: "int \<Rightarrow> exn + int" where
  "Semaphore v =
     (if v < 0 then Inl (Exn ''ValueError'' ''Semaphore initial value must be >= 0'') else Inr v)"

text \<open>
  One \<open>bounded_request\<close> task: it waits for the semaphore, holds a slot while
  \<open>make_request\<close> runs, and is done with what \<open>make_request\<close> returned or raised.
\<close>

datatype task =
    is_Waiting: Waiting
  | is_Running: Running
  | is_Done: Done "exn + pydict option"

record loop_state =
  sem_value :: int
  tasks :: "task list"

text \<open>
  One move of the \<open>bounded_request\<close> task \<open>i\<close>, which the event loop lets run until it
  suspends or ends. Entering \<open>async with semaphore\<close> takes a slot when one is free and
  leaves the task waiting otherwise; leaving it, with the result of \<open>make_request\<close>, gives
  the slot back. Task \<open>i\<close> works on endpoint \<open>i\<close> in its own world \<open>ws i\<close>.
\<close>

definition bounded_request_step :: "executor \<Rightarrow> (nat \<Rightarrow> env) \<Rightarrow> loop_state \<Rightarrow> nat \<Rightarrow> loop_state" where
  "bounded_request_step ex ws s i =
     (if i < length (tasks s) then
        (case tasks s ! i of
           Waiting \<Rightarrow>
             if 0 < sem_value s
             then s\<lparr>sem_value := sem_value s - 1, tasks := (tasks s)[i := Running]\<rparr>
             else s
         | Running \<Rightarrow>
             s\<lparr>sem_value := sem_value s + 1,
               tasks := (tasks s)[i := Done (snd (make_request ex (ws i) (endpoints ex ! i)))]\<rparr>
         | Done r \<Rightarrow> s)
      else s)"

text \<open>The tasks as created: one per endpoint, none started.\<close>

definition start :: "executor \<Rightarrow> int \<Rightarrow> loop_state" where
  "start ex v = \<lparr>sem_value = v, tasks = replicate (length (endpoints ex)) Waiting\<rparr>"

text \<open>The state after the event loop has run the tasks in the order \<open>sched\<close>.\<close>

definition after :: "executor \<Rightarrow> (nat \<Rightarrow> env) \<Rightarrow> int \<Rightarrow> nat list \<Rightarrow> loop_state" where
  "after ex ws v sched = foldl (bounded_request_step ex ws) (start ex v) sched"

text \<open>
  \<open>asyncio.gather\<close> with \<open>return_exceptions=True\<close>: ready once every task is done, with
  the results and the exceptions in the order of the tasks.
\<close>

fun gather :: "task list \<Rightarrow> (exn + pydict option) list option" where
  "gather [] = Some []"
| "gather (Done r # ts) = (case gather ts of None \<Rightarrow> None | Some rs \<Rightarrow> Some (r # rs))"
| "gather (t # ts) = None"

text \<open>The loop over \<open>results\<close>: an exception becomes \<open>{'error': str(result)}\<close>.\<close>

definition process_result :: "exn + pydict option \<Rightarrow> pydict option" where
  "process_result r = (case r of Inl e \<Rightarrow> Some [(''error'', PStr (str_exn e))] | Inr d \<Rightarrow> d)"

text \<open>How a call stands: it has raised, it has returned, or it is still awaiting.\<close>

datatype 'a call = Raised exn | Returned 'a | Awaiting

text \<open>
  \<open>run_async\<close> under the schedule \<open>sched\<close> of the event loop: the semaphore, the tasks,
  \<open>gather\<close>, and the processing of the results.
\<close>

definition run_async :: "executor \<Rightarrow> (nat \<Rightarrow> env) \<Rightarrow> nat list \<Rightarrow> pydict option list call" where
  "run_async ex ws sched =
     (case Semaphore (concurrency ex) of
        Inl e \<Rightarrow> Raised e
      | Inr v \<Rightarrow>
          (case gather (tasks (after ex ws v sched)) of
             None \<Rightarrow> Awaiting
           | Some results \<Rightarrow> Returned (map process_result results)))"

text \<open>The number of units holding a slot, that is, inside \<open>make_request\<close>.\<close>

definition in_flight :: "loop_state \<Rightarrow> nat" where
  "in_flight s = length (filter is_Running (tasks s))"

section \<open>The scraper's units of work (src/automation/web_scraper.py)\<close>

record scraper =
  sc_retry_count :: pyobj
  sc_delay_range :: "real \<times> real"
  sc_selectors :: "(string \<times> string) list"

text \<open>
  The world of one scraped URL: \<open>page u a\<close> is what fetching \<open>u\<close> does in attempt \<open>a\<close>
  (the session's \<open>get\<close> with its headers and proxy, \<open>raise_for_status\<close>, reading and parsing
  the content): it raises or yields the content; \<open>select c sel\<close> is what \<open>soup.select\<close> does
  with selector \<open>sel\<close> on content \<open>c\<close>: it raises or yields the text of the elements that
  match.
\<close>

record scrape_env =
  page :: "string \<Rightarrow> nat \<Rightarrow> exn + string"
  select :: "string \<Rightarrow> string \<Rightarrow> exn + string list"

text \<open>\<open>data[key] = value\<close>: the value of a key that is present is replaced.\<close>

fun dict_set :: "pydict \<Rightarrow> string \<Rightarrow> pyval \<Rightarrow> pydict" where
  "dict_set [] k v = [(k, v)]"
| "dict_set ((k', v') # d) k v = (if k' = k then (k, v) # d else (k', v') # dict_set d k v)"

text \<open>
  The loop over \<open>self.selectors.items()\<close> filling \<open>data\<close>, from what \<open>data\<close> holds before; it
  ends at the first selector that raises.
\<close>

fun extract_data ::
  "scrape_env \<Rightarrow> string \<Rightarrow> (string \<times> string) list \<Rightarrow> pydict \<Rightarrow> exn + pydict" where
  "extract_data w c [] data = Inr data"
| "extract_data w c ((k, sel) # sels) data =
     (case select w c sel of
        Inl e \<Rightarrow> Inl e
      | Inr texts \<Rightarrow> extract_data w c sels (dict_set data k (PList texts)))"

text \<open>The body of the \<open>try\<close> block of \<open>scrape_static\<close> in attempt \<open>a\<close>.\<close>

definition static_body :: "scraper \<Rightarrow> scrape_env \<Rightarrow> string \<Rightarrow> nat \<Rightarrow> exn + pydict" where
  "static_body sc w u a =
     (case page w u a of Inl e \<Rightarrow> Inl e | Inr c \<Rightarrow> extract_data w c (sc_selectors sc) [])"

text \<open>
  The loop of \<open>scrape_static\<close> from attempt \<open>a\<close> on, for the integer \<open>rc\<close> that \<open>range\<close> has
  accepted; after the last attempt it re-raises.
\<close>

function static_from ::
  "scraper \<Rightarrow> scrape_env \<Rightarrow> string \<Rightarrow> int \<Rightarrow> nat \<Rightarrow> event list \<times> (exn + pydict option)" where
  "static_from sc w u rc a =
     (if int a < rc then
        (case static_body sc w u a of
           Inr d \<Rightarrow> ([PageGet u], Inr (Some d))
         | Inl e \<Rightarrow>
             if int a < rc - 1 then
               (case static_from sc w u rc (Suc a) of
                  (tr', r) \<Rightarrow>
                    ([PageGet u, LogWarning (a + 1) (str_exn e), BackoffSleep (2 ^ a)] @ tr', r))
             else
               ([PageGet u, LogWarning (a + 1) (str_exn e), LogError rc], Inl e))
      else ([], Inr None))"
  by pat_completeness auto
termination
  by (relation "measure (\<lambda>(sc, w, u, rc, a). nat (rc - int a))") auto

definition scrape_static ::
  "scraper \<Rightarrow> scrape_env \<Rightarrow> string \<Rightarrow> event list \<times> (exn + pydict option)" where
  "scrape_static sc w u =
     (case range_stop (sc_retry_count sc) of
        Inl e \<Rightarrow> ([], Inl e)
      | Inr rc \<Rightarrow> static_from sc w u rc 0)"

text \<open>The body of the \<open>try\<close> block of the inner \<open>fetch\<close> of \<open>scrape_async\<close> in attempt \<open>a\<close>.\<close>

definition fetch_body :: "scraper \<Rightarrow> scrape_env \<Rightarrow> string \<Rightarrow> nat \<Rightarrow> exn + pydict" where
  "fetch_body sc w u a =
     (case page w u a of
        Inl e \<Rightarrow> Inl e
      | Inr c \<Rightarrow> extract_data w c (sc_selectors sc) [(''url'', PStr u)])"

text \<open>The loop of \<open>fetch\<close> from attempt \<open>a\<close> on.\<close>

function fetch_from ::
  "scraper \<Rightarrow> scrape_env \<Rightarrow> string \<Rightarrow> int \<Rightarrow> nat \<Rightarrow> event list \<times> (exn + pydict option)" where
  "fetch_from sc w u rc a =
     (if int a < rc then
        (case fetch_body sc w u a of
           Inr d \<Rightarrow> ([PageGet u], Inr (Some d))
         | Inl e \<Rightarrow>
             if int a < rc - 1 then
               (case fetch_from sc w u rc (Suc a) of
                  (tr', r) \<Rightarrow> ([PageGet u, BackoffSleep (2 ^ a)] @ tr', r))
             else
               ([PageGet u, LogErrorMsg (str_exn e)], Inr (Some (error_dict u e))))
      else ([], Inr None))"
  by pat_completeness auto
termination
  by (relation "measure (\<lambda>(sc, w, u, rc, a). nat (rc - int a))") auto

definition fetch :: "scraper \<Rightarrow> scrape_env \<Rightarrow> string \<Rightarrow> event list \<times> (exn + pydict option)" where
  "fetch sc w u =
     (case range_stop (sc_retry_count sc) of
        Inl e \<Rightarrow> ([], Inl e)
      | Inr rc \<Rightarrow> fetch_from sc w u rc 0)"

section \<open>Reading a trace\<close>

text \<open>The number of times the operation was invoked: the calls made on the session.\<close>

fun is_invocation :: "event \<Rightarrow> bool" where
  "is_invocation (Request c) = True"
| "is_invocation (PageGet u) = True"
| "is_invocation e = False"

definition invocations :: "event list \<Rightarrow> nat" where
  "invocations tr = length (filter is_invocation tr)"

text \<open>The backoff sleeps of a trace, in order.\<close>

fun backoffs :: "event list \<Rightarrow> nat list" where
  "backoffs [] = []"
| "backoffs (BackoffSleep n # tr) = n # backoffs tr"
| "backoffs (e # tr) = backoffs tr"

text \<open>The pacing sleeps of a trace, in order.\<close>

fun pacings :: "event list \<Rightarrow> real list" where
  "pacings [] = []"
| "pacings (PaceSleep d # tr) = d # pacings tr"
| "pacings (e # tr) = pacings tr"

text \<open>
  A backoff sleep follows the warning of failed attempt \<open>n\<close> (counted from 1) only when
  \<open>n\<close> is not the last attempt, lasts \<open>2 ^ (n - 1)\<close>, and is followed by further effects (the
  next attempt); a warning that no backoff follows is the one of the last attempt.
\<close>

fun backoff_ok :: "int \<Rightarrow> event list \<Rightarrow> bool" where
  "backoff_ok rc [] = True"
| "backoff_ok rc (LogWarning n m # BackoffSleep d # tr) =
     (0 < n \<and> int n < rc \<and> d = 2 ^ (n - 1) \<and> tr \<noteq> [] \<and> backoff_ok rc tr)"
| "backoff_ok rc (LogWarning n m # tr) = (int n = rc \<and> backoff_ok rc tr)"
| "backoff_ok rc (BackoffSleep d # tr) = False"
| "backoff_ok rc (e # tr) = backoff_ok rc tr"

text \<open>Every invocation is directly preceded by a pacing sleep.\<close>

fun paced :: "event list \<Rightarrow> bool" where
  "paced [] = True"
| "paced (PaceSleep d # Request c # tr) = paced tr"
| "paced (PaceSleep d # PageGet u # tr) = paced tr"
| "paced (Request c # tr) = False"
| "paced (PageGet u # tr) = False"
| "paced (e # tr) = paced tr"

text \<open>
  The work a task still has to do: a waiting task has two moves left, a running one has one.
\<close>

fun weight :: "task \<Rightarrow> nat" where
  "weight Waiting = 2"
| "weight Running = 1"
| "weight (Done r) = 0"

definition remaining :: "loop_state \<Rightarrow> nat" where
  "remaining s = sum_list (map weight (tasks s))"

text \<open>
  The effects of attempt \<open>a\<close> when it fails and is not the last one: the \<open>try\<close> body, the
  warning, the backoff sleep.
\<close>

definition failed_round :: "executor \<Rightarrow> env \<Rightarrow> endpoint \<Rightarrow> string \<Rightarrow> nat \<Rightarrow> event list" where
  "failed_round ex w ep m a =
     fst (try_body ex w ep m a) @
     [LogWarning (a + 1) (str_exn (projl (snd (try_body ex w ep m a)))), BackoffSleep (2 ^ a)]"

text \<open>The same for \<open>scrape_static\<close>.\<close>

definition failed_static_round :: "scraper \<Rightarrow> scrape_env \<Rightarrow> string \<Rightarrow> nat \<Rightarrow> event list" where
  "failed_static_round sc w u a =
     [PageGet u, LogWarning (a + 1) (str_exn (projl (static_body sc w u a))), BackoffSleep (2 ^ a)]"

section \<open>The fixtures of src/tests/test_api_automation.py, and worlds to run them in\<close>

text \<open>
  What \<open>str.upper\<close> does on ASCII text, which is all the fixtures need: the letters a to z
  (codes 97 to 122) move to A to Z, which is 32 less, that is, bit 5 of the code cleared;
  every other ASCII character stays.
\<close>

fun upper_char :: "char \<Rightarrow> char" where
  "upper_char (Char b0 b1 b2 b3 b4 b5 b6 b7) =
     (if 97 \<le> (of_char (Char b0 b1 b2 b3 b4 b5 b6 b7) :: nat)
         \<and> (of_char (Char b0 b1 b2 b3 b4 b5 b6 b7) :: nat) \<le> 122
      then Char b0 b1 b2 b3 b4 False b6 b7
      else Char b0 b1 b2 b3 b4 b5 b6 b7)"

definition ascii_upper :: "string \<Rightarrow> string" where
  "ascii_upper s = map upper_char s"

definition test_endpoint :: endpoint where
  "test_endpoint =
     \<lparr>ep_url = ''https://httpbin.org/get'', ep_method = Some (PyStr ''GET''),
      ep_headers = [], ep_params = [], ep_data = []\<rparr>"

definition test_config :: config where
  "test_config =
     \<lparr>cfg_endpoints = Some [test_endpoint], cfg_concurrency = Some 2,
      cfg_retry = Some (PyInt 3), cfg_delay_range = Some (1 / 10, 2 / 10)\<rparr>"

definition test_executor :: executor where
  "test_executor =
     \<lparr>endpoints = [test_endpoint], concurrency = 2, retry_count = PyInt 3,
      delay_range = (1 / 10, 2 / 10)\<rparr>"

definition ok_response :: response where
  "ok_response = \<lparr>resp_status = 200, resp_headers = [], resp_text = ''{}''\<rparr>"

definition connection_refused :: exn where
  "connection_refused = Exn ''ClientConnectorError'' ''Cannot connect to host''"

text \<open>A host that refuses the first two calls and then answers.\<close>

definition flaky :: env where
  "flaky = \<lparr>str_upper = ascii_upper, rnd = (\<lambda>a. 1 / 2),
            http = (\<lambda>c a. if a < 2 then Inl connection_refused else Inr ok_response)\<rparr>"

text \<open>A host that refuses every call.\<close>

definition down :: env where
  "down = \<lparr>str_upper = ascii_upper, rnd = (\<lambda>a. 1 / 2),
           http = (\<lambda>c a. Inl connection_refused)\<rparr>"

text \<open>A scraper set up as in src/tests/test_web_scraper.py, and a site that always fails.\<close>

definition test_scraper :: scraper where
  "test_scraper =
     \<lparr>sc_retry_count = PyInt 3, sc_delay_range = (1 / 10, 2 / 10),
      sc_selectors = [(''title'', ''h1''), (''content'', ''p'')]\<rparr>"

definition server_error :: exn where
  "server_error = Exn ''HTTPError'' ''500 Server Error''"

definition site_down :: scrape_env where
  "site_down = \<lparr>page = (\<lambda>u a. Inl server_error), select = (\<lambda>c sel. Inr [])\<rparr>"

text \<open>An endpoint whose method is none of the four, and executors with other settings.\<close>

definition patch_endpoint :: endpoint where
  "patch_endpoint =
     \<lparr>ep_url = ''https://httpbin.org/patch'', ep_method = Some (PyStr ''patch''),
      ep_headers = [], ep_params = [], ep_data = []\<rparr>"

definition one_attempt :: executor where
  "one_attempt = test_executor\<lparr>retry_count := PyInt 1\<rparr>"

definition no_attempt :: executor where
  "no_attempt = test_executor\<lparr>retry_count := PyInt 0\<rparr>"

definition bad_config :: config where
  "bad_config =
     \<lparr>cfg_endpoints = Some [test_endpoint], cfg_concurrency = Some (- 1),
      cfg_retry = Some (PyInt (- 1)), cfg_delay_range = Some (3, 1)\<rparr>"

definition bad_executor :: executor where
  "bad_executor =
     \<lparr>endpoints = [test_endpoint], concurrency = - 1, retry_count = PyInt (- 1),
      delay_range = (3, 1)\<rparr>"

definition batch :: executor where
  "batch =
     \<lparr>endpoints = [test_endpoint, patch_endpoint, test_endpoint], concurrency = 2,
      retry_count = PyInt 3, delay_range = (1 / 10, 2 / 10)\<rparr>"

definition hosts :: "nat \<Rightarrow> env" where
  "hosts i = (if i = 0 then flaky else down)"





declare attempts_from.simps [simp del]
declare static_from.simps [simp del]
declare fetch_from.simps [simp del]

section \<open>The attempt loop of \<open>make_request\<close>, one step at a time\<close>

lemma attempts_from_exit:
  "\<not> int a < rc \<Longrightarrow> attempts_from ex w ep m rc a = ([], Inr None)"
  by (simp add: attempts_from.simps)

lemma attempts_from_ok:
  "int a < rc \<Longrightarrow> try_body ex w ep m a = (tr, Inr d) \<Longrightarrow>
   attempts_from ex w ep m rc a = (tr, Inr (Some d))"
  by (simp add: attempts_from.simps)

lemma attempts_from_last:
  "int a < rc \<Longrightarrow> \<not> int a < rc - 1 \<Longrightarrow>
   try_body ex w ep m a = (tr, Inl e) \<Longrightarrow>
   attempts_from ex w ep m rc a =
     (tr @ [LogWarning (a + 1) (str_exn e), LogError rc],
      Inr (Some (error_dict (ep_url ep) e)))"
  by (simp add: attempts_from.simps)

lemma attempts_from_retry:
  "int a < rc - 1 \<Longrightarrow> try_body ex w ep m a = (tr, Inl e) \<Longrightarrow>
   attempts_from ex w ep m rc a =
     (tr @ [LogWarning (a + 1) (str_exn e), BackoffSleep (2 ^ a)] @ fst (attempts_from ex w ep m rc (Suc a)),
      snd (attempts_from ex w ep m rc (Suc a)))"
  by (subst attempts_from.simps) (simp add: case_prod_beta)

lemma try_body_some:
  "dispatch ep m = Some c \<Longrightarrow>
   try_body ex w ep m a =
     ([PaceSleep (uniform (delay_range ex) (rnd w a)), Request c],
      (case http w c a of Inl e \<Rightarrow> Inl e | Inr r \<Rightarrow> Inr (response_dict (ep_url ep) r)))"
  by (simp add: try_body_def)

lemma try_body_none:
  "dispatch ep m = None \<Longrightarrow>
   try_body ex w ep m a =
     ([PaceSleep (uniform (delay_range ex) (rnd w a))], Inl (unsupported_method m))"
  by (simp add: try_body_def)


lemma attempts_from_returns:
  "int a < rc \<Longrightarrow> \<exists>d. snd (attempts_from ex w ep m rc a) = Inr (Some d)"
proof (induction ex w ep m rc a rule: attempts_from.induct)
  case (1 ex w ep m rc a)
  obtain tr r where tb: "try_body ex w ep m a = (tr, r)" by (cases "try_body ex w ep m a")
  show ?case
  proof (cases r)
    case (Inr d)
    with "1.prems" tb show ?thesis by (simp add: attempts_from_ok)
  next
    case (Inl e)
    show ?thesis
    proof (cases "int a < rc - 1")
      case True
      then have "int (Suc a) < rc" by simp
      from "1.IH" [OF "1.prems" tb [symmetric] Inl True this] True tb Inl show ?thesis
        by (simp add: attempts_from_retry)
    next
      case False
      with tb Inl "1.prems" show ?thesis by (simp add: attempts_from_last)
    qed
  qed
qed

lemma attempts_skip:
  "(\<And>i. i < j \<Longrightarrow> isl (snd (try_body ex w ep m i))) \<Longrightarrow> int j < rc \<Longrightarrow>
   attempts_from ex w ep m rc 0 =
     (concat (map (failed_round ex w ep m) [0..<j]) @ fst (attempts_from ex w ep m rc j),
      snd (attempts_from ex w ep m rc j))"
proof (induction j)
  case 0
  then show ?case by simp
next
  case (Suc j)
  have fail: "isl (snd (try_body ex w ep m j))" using Suc.prems(1) by simp
  then obtain tr e where tb: "try_body ex w ep m j = (tr, Inl e)"
    by (cases "try_body ex w ep m j") (auto simp: isl_def)
  have lt: "int j < rc - 1" using Suc.prems(2) by simp
  have step: "attempts_from ex w ep m rc j =
     (failed_round ex w ep m j @ fst (attempts_from ex w ep m rc (Suc j)),
      snd (attempts_from ex w ep m rc (Suc j)))"
    using attempts_from_retry [OF lt tb] tb by (simp add: failed_round_def)
  have "attempts_from ex w ep m rc 0 =
     (concat (map (failed_round ex w ep m) [0..<j]) @ fst (attempts_from ex w ep m rc j),
      snd (attempts_from ex w ep m rc j))"
    using Suc.IH Suc.prems by simp
  then show ?case by (simp add: step)
qed

lemma invocations_append: "invocations (xs @ ys) = invocations xs + invocations ys"
  by (simp add: invocations_def)

lemma invocations_concat: "invocations (concat xss) = sum_list (map invocations xss)"
  by (induction xss) (simp_all add: invocations_def)

lemma failed_round_some:
  "dispatch ep m = Some c \<Longrightarrow> http w c a = Inl e \<Longrightarrow>
   failed_round ex w ep m a =
     [PaceSleep (uniform (delay_range ex) (rnd w a)), Request c,
      LogWarning (a + 1) (str_exn e), BackoffSleep (2 ^ a)]"
  by (simp add: failed_round_def try_body_some)

lemma failed_round_none:
  "dispatch ep m = None \<Longrightarrow>
   failed_round ex w ep m a =
     [PaceSleep (uniform (delay_range ex) (rnd w a)),
      LogWarning (a + 1) (str_exn (unsupported_method m)), BackoffSleep (2 ^ a)]"
  by (simp add: failed_round_def try_body_none)

lemma sum_list_const: "(\<And>x. x \<in> set xs \<Longrightarrow> f x = (c::nat)) \<Longrightarrow> sum_list (map f xs) = c * length xs"
  by (induction xs) simp_all

lemma make_request_loop:
  "method_upper w ep = Inr m \<Longrightarrow> range_stop (retry_count ex) = Inr rc \<Longrightarrow>
   make_request ex w ep = attempts_from ex w ep m rc 0"
  by (simp add: make_request_def)

lemma all_fail:
  assumes mu: "method_upper w ep = Inr m" and rs: "range_stop (retry_count ex) = Inr rc"
    and rc: "1 \<le> rc"
    and fails: "\<And>i. int i < rc \<Longrightarrow> isl (snd (try_body ex w ep m i))"
  shows "make_request ex w ep =
     (concat (map (failed_round ex w ep m) [0..<nat (rc - 1)]) @
        fst (try_body ex w ep m (nat (rc - 1))) @
        [LogWarning (nat (rc - 1) + 1)
           (str_exn (projl (snd (try_body ex w ep m (nat (rc - 1)))))),
         LogError rc],
      Inr (Some (error_dict (ep_url ep) (projl (snd (try_body ex w ep m (nat (rc - 1))))))))"
proof -
  define n where "n = nat (rc - 1)"
  have lt: "int n < rc" and last: "\<not> int n < rc - 1"
    using rc by (simp_all add: n_def)
  have f: "\<And>i. i < n \<Longrightarrow> isl (snd (try_body ex w ep m i))"
    using fails lt by simp
  have "isl (snd (try_body ex w ep m n))" using fails lt by simp
  then obtain tr e where tb: "try_body ex w ep m n = (tr, Inl e)"
    by (cases "try_body ex w ep m n") (auto simp: isl_def)
  show ?thesis
    unfolding make_request_loop [OF mu rs] n_def [symmetric]
    using attempts_skip [OF f lt] attempts_from_last [OF lt last tb] tb by simp
qed

lemma init_test_config: "init test_config = Inr test_executor"
  by (simp add: init_def test_config_def test_executor_def get_default_def)

lemma method_test_endpoint:
  "str_upper w = ascii_upper \<Longrightarrow> method_upper w test_endpoint = Inr ''GET''"
  by (simp add: method_upper_def test_endpoint_def get_default_def ascii_upper_def)

lemma method_patch_endpoint:
  "str_upper w = ascii_upper \<Longrightarrow> method_upper w patch_endpoint = Inr ''PATCH''"
  by (simp add: method_upper_def patch_endpoint_def get_default_def ascii_upper_def)

lemma method_flaky: "method_upper flaky test_endpoint = Inr ''GET''"
  by (rule method_test_endpoint) (simp add: flaky_def)

lemma method_down: "method_upper down test_endpoint = Inr ''GET''"
  by (rule method_test_endpoint) (simp add: down_def)

lemma method_down_patch: "method_upper down patch_endpoint = Inr ''PATCH''"
  by (rule method_patch_endpoint) (simp add: down_def)

lemma dispatch_test_endpoint:
  "dispatch test_endpoint ''GET'' = Some (SessionGet ''https://httpbin.org/get'' [] [])"
  by (simp add: dispatch_def test_endpoint_def)

lemma dispatch_None_iff:
  "dispatch ep m = None \<longleftrightarrow> m \<notin> set [''GET'', ''POST'', ''PUT'', ''DELETE'']"
  by (simp add: dispatch_def)

lemma dispatch_patch_endpoint: "dispatch patch_endpoint ''PATCH'' = None"
  by (simp add: dispatch_def)

section \<open>Pacing and backoff in the trace\<close>

lemma try_body_shape:
  "(\<exists>c. fst (try_body ex w ep m a) = [PaceSleep (uniform (delay_range ex) (rnd w a)), Request c])
   \<or> fst (try_body ex w ep m a) = [PaceSleep (uniform (delay_range ex) (rnd w a))]"
  by (cases "dispatch ep m") (simp_all add: try_body_def)

lemma attempts_from_nonempty:
  "int a < rc \<Longrightarrow> fst (attempts_from ex w ep m rc a) \<noteq> []"
  using try_body_shape [of ex w ep m a]
  by (subst attempts_from.simps) (auto split: prod.splits sum.splits)

lemma backoff_ok_attempts: "backoff_ok rc (fst (attempts_from ex w ep m rc a))"
proof (induction ex w ep m rc a rule: attempts_from.induct)
  case (1 ex w ep m rc a)
  obtain tr r where tb: "try_body ex w ep m a = (tr, r)" by (cases "try_body ex w ep m a")
  have shape: "(\<exists>d c. tr = [PaceSleep d, Request c]) \<or> (\<exists>d. tr = [PaceSleep d])"
    using try_body_shape [of ex w ep m a] tb by auto
  show ?case
  proof (cases "int a < rc")
    case False
    then show ?thesis by (simp add: attempts_from_exit)
  next
    case lt: True
    show ?thesis
    proof (cases r)
      case (Inr d)
      with lt tb shape show ?thesis by (auto simp: attempts_from_ok)
    next
      case (Inl e)
      show ?thesis
      proof (cases "int a < rc - 1")
        case True
        then have ne: "fst (attempts_from ex w ep m rc (Suc a)) \<noteq> []"
          by (intro attempts_from_nonempty) simp
        have ih: "backoff_ok rc (fst (attempts_from ex w ep m rc (Suc a)))"
          using "1.IH" lt tb Inl True by simp
        show ?thesis
          using shape True ne ih tb Inl by (auto simp: attempts_from_retry)
      next
        case False
        with tb Inl lt shape show ?thesis by (auto simp: attempts_from_last)
      qed
    qed
  qed
qed

lemma paced_attempts: "paced (fst (attempts_from ex w ep m rc a))"
proof (induction ex w ep m rc a rule: attempts_from.induct)
  case (1 ex w ep m rc a)
  obtain tr r where tb: "try_body ex w ep m a = (tr, r)" by (cases "try_body ex w ep m a")
  have shape: "(\<exists>d c. tr = [PaceSleep d, Request c]) \<or> (\<exists>d. tr = [PaceSleep d])"
    using try_body_shape [of ex w ep m a] tb by auto
  show ?case
  proof (cases "int a < rc")
    case False
    then show ?thesis by (simp add: attempts_from_exit)
  next
    case lt: True
    show ?thesis
    proof (cases r)
      case (Inr d)
      with lt tb shape show ?thesis by (auto simp: attempts_from_ok)
    next
      case (Inl e)
      show ?thesis
      proof (cases "int a < rc - 1")
        case True
        have ih: "paced (fst (attempts_from ex w ep m rc (Suc a)))"
          using "1.IH" lt tb Inl True by simp
        show ?thesis
          using shape True ih tb Inl by (auto simp: attempts_from_retry)
      next
        case False
        with tb Inl lt shape show ?thesis by (auto simp: attempts_from_last)
      qed
    qed
  qed
qed

lemma pacings_append: "pacings (xs @ ys) = pacings xs @ pacings ys"
  by (induction xs rule: pacings.induct) simp_all

lemma backoffs_append: "backoffs (xs @ ys) = backoffs xs @ backoffs ys"
  by (induction xs rule: backoffs.induct) simp_all

lemma pacings_try_body:
  "pacings (fst (try_body ex w ep m a)) = [uniform (delay_range ex) (rnd w a)]"
  using try_body_shape [of ex w ep m a] by auto

lemma backoffs_try_body: "backoffs (fst (try_body ex w ep m a)) = []"
  using try_body_shape [of ex w ep m a] by auto

lemma pacings_attempts:
  "\<exists>n. pacings (fst (attempts_from ex w ep m rc a)) =
         map (\<lambda>i. uniform (delay_range ex) (rnd w i)) [a..<a + n]"
proof (induction ex w ep m rc a rule: attempts_from.induct)
  case (1 ex w ep m rc a)
  let ?f = "\<lambda>i. uniform (delay_range ex) (rnd w i)"
  obtain tr r where tb: "try_body ex w ep m a = (tr, r)" by (cases "try_body ex w ep m a")
  have ptr: "pacings tr = [?f a]" using pacings_try_body [of ex w ep m a] tb by simp
  have one: "[?f a] = map ?f [a..<a + 1]" by simp
  show ?case
  proof (cases "int a < rc")
    case False
    then have "pacings (fst (attempts_from ex w ep m rc a)) = map ?f [a..<a + 0]"
      by (simp add: attempts_from_exit)
    then show ?thesis by blast
  next
    case lt: True
    show ?thesis
    proof (cases r)
      case (Inr d)
      with lt tb ptr have "pacings (fst (attempts_from ex w ep m rc a)) = map ?f [a..<a + 1]"
        by (simp add: attempts_from_ok)
      then show ?thesis by blast
    next
      case (Inl e)
      show ?thesis
      proof (cases "int a < rc - 1")
        case True
        obtain n where ih: "pacings (fst (attempts_from ex w ep m rc (Suc a))) = map ?f [Suc a..<Suc a + n]"
          using "1.IH" lt tb Inl True by auto
        have "pacings (fst (attempts_from ex w ep m rc a)) = ?f a # map ?f [Suc a..<Suc a + n]"
          using True tb Inl ptr ih by (simp add: attempts_from_retry pacings_append)
        also have "\<dots> = map ?f [a..<a + Suc n]"
          by (simp add: upt_conv_Cons del: upt_Suc)
        finally show ?thesis by blast
      next
        case False
        with tb Inl lt ptr have "pacings (fst (attempts_from ex w ep m rc a)) = map ?f [a..<a + 1]"
          by (simp add: attempts_from_last pacings_append)
        then show ?thesis by blast
      qed
    qed
  qed
qed

lemma uniform_in_range:
  "fst r \<le> snd r \<Longrightarrow> 0 \<le> u \<Longrightarrow> u \<le> 1 \<Longrightarrow> fst r \<le> uniform r u \<and> uniform r u \<le> snd r"
proof -
  assume a: "fst r \<le> snd r" "0 \<le> u" "u \<le> 1"
  have "0 \<le> (snd r - fst r) * u" using a by simp
  moreover have "(snd r - fst r) * u \<le> (snd r - fst r) * 1"
    using a by (intro mult_left_mono) simp_all
  ultimately show ?thesis by (simp add: uniform_def)
qed

lemma hd_attempts:
  "int a < rc \<Longrightarrow>
   hd (fst (attempts_from ex w ep m rc a)) = PaceSleep (uniform (delay_range ex) (rnd w a))"
  using try_body_shape [of ex w ep m a]
  by (subst attempts_from.simps) (auto split: prod.splits sum.splits)

lemma backoffs_rounds:
  "backoffs (concat (map (failed_round ex w ep m) xs)) = map (\<lambda>a. 2 ^ a) xs"
  by (induction xs) (simp_all add: backoffs_append failed_round_def backoffs_try_body)

lemma backoffs_last_round:
  assumes lt: "int j < rc"
    and last: "\<not> isl (snd (try_body ex w ep m j)) \<or> int j = rc - 1"
  shows "backoffs (fst (attempts_from ex w ep m rc j)) = []"
proof -
  obtain tr r where tb: "try_body ex w ep m j = (tr, r)" by (cases "try_body ex w ep m j")
  have btr: "backoffs tr = []" using backoffs_try_body [of ex w ep m j] tb by simp
  show ?thesis
  proof (cases r)
    case (Inr d)
    with lt tb btr show ?thesis by (simp add: attempts_from_ok)
  next
    case (Inl e)
    with last tb have "\<not> int j < rc - 1" by simp
    from attempts_from_last [OF lt this] tb Inl btr show ?thesis
      by (simp add: backoffs_append)
  qed
qed

lemma backoffs_attempts:
  assumes fails: "\<And>a. a < j \<Longrightarrow> isl (snd (try_body ex w ep m a))"
    and lt: "int j < rc"
    and last: "\<not> isl (snd (try_body ex w ep m j)) \<or> int j = rc - 1"
  shows "backoffs (fst (attempts_from ex w ep m rc 0)) = map (\<lambda>a. 2 ^ a) [0..<j]"
  using attempts_skip [OF fails lt] backoffs_last_round [OF lt last]
  by (simp add: backoffs_append backoffs_rounds)

section \<open>The scraper's loops\<close>

lemma static_from_exit:
  "\<not> int a < rc \<Longrightarrow> static_from sc w u rc a = ([], Inr None)"
  by (simp add: static_from.simps)

lemma static_from_ok:
  "int a < rc \<Longrightarrow> static_body sc w u a = Inr d \<Longrightarrow>
   static_from sc w u rc a = ([PageGet u], Inr (Some d))"
  by (simp add: static_from.simps)

lemma static_from_last:
  "int a < rc \<Longrightarrow> \<not> int a < rc - 1 \<Longrightarrow>
   static_body sc w u a = Inl e \<Longrightarrow>
   static_from sc w u rc a =
     ([PageGet u, LogWarning (a + 1) (str_exn e), LogError (rc)], Inl e)"
  by (simp add: static_from.simps)

lemma static_from_retry:
  "int a < rc - 1 \<Longrightarrow> static_body sc w u a = Inl e \<Longrightarrow>
   static_from sc w u rc a =
     ([PageGet u, LogWarning (a + 1) (str_exn e), BackoffSleep (2 ^ a)] @
        fst (static_from sc w u rc (Suc a)),
      snd (static_from sc w u rc (Suc a)))"
  by (subst static_from.simps) (simp add: case_prod_beta)

lemma static_from_nonempty:
  "int a < rc \<Longrightarrow> fst (static_from sc w u rc a) \<noteq> []"
  by (subst static_from.simps) (auto split: prod.splits sum.splits)

lemma backoff_ok_static: "backoff_ok (rc) (fst (static_from sc w u rc a))"
proof (induction sc w u rc a rule: static_from.induct)
  case (1 sc w u rc a)
  show ?case
  proof (cases "int a < rc")
    case False
    then show ?thesis by (simp add: static_from_exit)
  next
    case lt: True
    show ?thesis
    proof (cases "static_body sc w u a")
      case (Inr c)
      with lt show ?thesis by (simp add: static_from_ok)
    next
      case (Inl e)
      show ?thesis
      proof (cases "int a < rc - 1")
        case True
        then have ne: "fst (static_from sc w u rc (Suc a)) \<noteq> []"
          by (intro static_from_nonempty) simp
        have ih: "backoff_ok (rc) (fst (static_from sc w u rc (Suc a)))"
          using "1.IH" lt Inl True by simp
        show ?thesis
          using True ne ih Inl by (simp add: static_from_retry)
      next
        case False
        with Inl lt show ?thesis by (simp add: static_from_last)
      qed
    qed
  qed
qed




lemma fetch_site_down:
  "fetch test_scraper site_down ''https://httpbin.org'' =
     ([PageGet ''https://httpbin.org'', BackoffSleep 1,
       PageGet ''https://httpbin.org'', BackoffSleep 2,
       PageGet ''https://httpbin.org'', LogErrorMsg ''500 Server Error''],
      Inr (Some [(''url'', PStr ''https://httpbin.org''), (''error'', PStr ''500 Server Error'')]))"
  by (simp add: fetch_def fetch_from.simps fetch_body_def test_scraper_def site_down_def
      server_error_def error_dict_def)


lemma static_skip:
  "(\<And>i. i < j \<Longrightarrow> isl (static_body sc w u i)) \<Longrightarrow> int j < rc \<Longrightarrow>
   static_from sc w u rc 0 =
     (concat (map (failed_static_round sc w u) [0..<j]) @ fst (static_from sc w u rc j),
      snd (static_from sc w u rc j))"
proof (induction j)
  case 0
  then show ?case by simp
next
  case (Suc j)
  have "isl (static_body sc w u j)" using Suc.prems(1) by simp
  then obtain e where fail: "static_body sc w u j = Inl e" by (auto simp: isl_def)
  have lt: "int j < rc - 1" using Suc.prems(2) by simp
  have step: "static_from sc w u rc j =
     (failed_static_round sc w u j @ fst (static_from sc w u rc (Suc j)),
      snd (static_from sc w u rc (Suc j)))"
    using static_from_retry [OF lt fail] fail by (simp add: failed_static_round_def)
  have "static_from sc w u rc 0 =
     (concat (map (failed_static_round sc w u) [0..<j]) @ fst (static_from sc w u rc j),
      snd (static_from sc w u rc j))"
    using Suc.IH Suc.prems by simp
  then show ?case by (simp add: step)
qed

lemma backoffs_static_rounds:
  "backoffs (concat (map (failed_static_round sc w u) xs)) = map (\<lambda>a. 2 ^ a) xs"
  by (induction xs) (simp_all add: backoffs_append failed_static_round_def)

lemma backoffs_static_last_round:
  assumes lt: "int j < rc"
    and last: "\<not> isl (static_body sc w u j) \<or> int j = rc - 1"
  shows "backoffs (fst (static_from sc w u rc j)) = []"
proof (cases "static_body sc w u j")
  case (Inr d)
  with lt show ?thesis by (simp add: static_from_ok)
next
  case (Inl e)
  with last have "\<not> int j < rc - 1" by simp
  from static_from_last [OF lt this Inl] show ?thesis by simp
qed

lemma backoffs_static:
  assumes fails: "\<And>a. a < j \<Longrightarrow> isl (static_body sc w u a)"
    and lt: "int j < rc"
    and last: "\<not> isl (static_body sc w u j) \<or> int j = rc - 1"
  shows "backoffs (fst (static_from sc w u rc 0)) = map (\<lambda>a. 2 ^ a) [0..<j]"
  using static_skip [OF fails lt] backoffs_static_last_round [OF lt last]
  by (simp add: backoffs_append backoffs_static_rounds)

lemma pacings_static: "pacings (fst (static_from sc w u rc a)) = []"
proof (induction sc w u rc a rule: static_from.induct)
  case (1 sc w u rc a)
  show ?case
  proof (cases "int a < rc")
    case False
    then show ?thesis by (simp add: static_from_exit)
  next
    case lt: True
    show ?thesis
    proof (cases "static_body sc w u a")
      case (Inr c)
      with lt show ?thesis by (simp add: static_from_ok)
    next
      case (Inl e)
      show ?thesis
      proof (cases "int a < rc - 1")
        case True
        with "1.IH" [OF lt Inl True] Inl show ?thesis by (simp add: static_from_retry)
      next
        case False
        with Inl lt show ?thesis by (simp add: static_from_last)
      qed
    qed
  qed
qed

lemma pacings_fetch: "pacings (fst (fetch_from sc w u rc a)) = []"
proof (induction sc w u rc a rule: fetch_from.induct)
  case (1 sc w u rc a)
  show ?case
  proof (cases "int a < rc")
    case False
    then show ?thesis by (simp add: fetch_from.simps)
  next
    case lt: True
    show ?thesis
    proof (cases "fetch_body sc w u a")
      case (Inr c)
      with lt show ?thesis by (simp add: fetch_from.simps)
    next
      case (Inl e)
      show ?thesis
      proof (cases "int a < rc - 1")
        case True
        with "1.IH" [OF lt Inl True] lt Inl show ?thesis
          by (subst fetch_from.simps) (simp add: case_prod_beta)
      next
        case False
        with Inl lt show ?thesis by (simp add: fetch_from.simps)
      qed
    qed
  qed
qed

section \<open>The event loop\<close>

lemma length_filter_update:
  "i < length xs \<Longrightarrow>
   length (filter P (xs[i := y])) + (if P (xs ! i) then 1 else 0) =
   length (filter P xs) + (if P y then 1 else 0)"
proof (induction xs arbitrary: i)
  case Nil
  then show ?case by simp
next
  case (Cons x xs)
  show ?case
  proof (cases i)
    case 0
    then show ?thesis by simp
  next
    case (Suc j)
    with Cons.prems have "j < length xs" by simp
    from Cons.IH [OF this] Suc show ?thesis by simp
  qed
qed

lemma sum_weight_update:
  "i < length xs \<Longrightarrow>
   sum_list (map weight (xs[i := y])) + weight (xs ! i) = sum_list (map weight xs) + weight y"
proof (induction xs arbitrary: i)
  case Nil
  then show ?case by simp
next
  case (Cons x xs)
  show ?case
  proof (cases i)
    case 0
    then show ?thesis by simp
  next
    case (Suc j)
    with Cons.prems have "j < length xs" by simp
    from Cons.IH [OF this] Suc show ?thesis by simp
  qed
qed

lemma length_tasks_fire: "length (tasks (bounded_request_step ex ws s i)) = length (tasks s)"
  by (simp add: bounded_request_step_def split: task.splits)

lemma fire_slots:
  "sem_value (bounded_request_step ex ws s i) + int (in_flight (bounded_request_step ex ws s i)) = sem_value s + int (in_flight s)"
proof (cases "i < length (tasks s)")
  case False
  then show ?thesis by (simp add: bounded_request_step_def)
next
  case True
  note upd = length_filter_update [OF True, of is_Running]
  show ?thesis
  proof (cases "tasks s ! i")
    case Waiting
    with True upd [of Running] show ?thesis by (simp add: bounded_request_step_def in_flight_def)
  next
    case Running
    with True upd [of "Done (snd (make_request ex (ws i) (endpoints ex ! i)))"]
    show ?thesis by (simp add: bounded_request_step_def in_flight_def)
  next
    case (Done r)
    with True show ?thesis by (simp add: bounded_request_step_def)
  qed
qed

lemma fire_sem_nonneg: "0 \<le> sem_value s \<Longrightarrow> 0 \<le> sem_value (bounded_request_step ex ws s i)"
  by (simp add: bounded_request_step_def split: task.splits)

lemma foldl_fire_slots:
  "sem_value (foldl (bounded_request_step ex ws) s sched) + int (in_flight (foldl (bounded_request_step ex ws) s sched)) =
   sem_value s + int (in_flight s)"
  by (induction sched arbitrary: s) (simp_all add: fire_slots)

lemma foldl_fire_sem_nonneg:
  "0 \<le> sem_value s \<Longrightarrow> 0 \<le> sem_value (foldl (bounded_request_step ex ws) s sched)"
  by (induction sched arbitrary: s) (simp_all add: fire_sem_nonneg)

lemma foldl_fire_length: "length (tasks (foldl (bounded_request_step ex ws) s sched)) = length (tasks s)"
  by (induction sched arbitrary: s) (simp_all add: length_tasks_fire)

lemma in_flight_start: "in_flight (start ex v) = 0"
  by (simp add: in_flight_def start_def)

lemma results_fire:
  assumes "\<forall>i r. i < length (tasks s) \<and> tasks s ! i = Done r \<longrightarrow>
             r = snd (make_request ex (ws i) (endpoints ex ! i))"
  shows "\<forall>i r. i < length (tasks (bounded_request_step ex ws s k)) \<and> tasks (bounded_request_step ex ws s k) ! i = Done r \<longrightarrow>
             r = snd (make_request ex (ws i) (endpoints ex ! i))"
  using assms unfolding bounded_request_step_def
  by (auto simp: nth_list_update split: task.splits if_splits)

lemma results_foldl:
  "\<forall>i r. i < length (tasks s) \<and> tasks s ! i = Done r \<longrightarrow>
             r = snd (make_request ex (ws i) (endpoints ex ! i)) \<Longrightarrow>
   \<forall>i r. i < length (tasks (foldl (bounded_request_step ex ws) s sched)) \<and>
          tasks (foldl (bounded_request_step ex ws) s sched) ! i = Done r \<longrightarrow>
             r = snd (make_request ex (ws i) (endpoints ex ! i))"
proof (induction sched arbitrary: s)
  case Nil
  then show ?case by simp
next
  case (Cons k sched)
  from Cons.IH [OF results_fire [OF Cons.prems]] show ?case by simp
qed

lemma results_start:
  "\<forall>i r. i < length (tasks (start ex v)) \<and> tasks (start ex v) ! i = Done r \<longrightarrow>
             r = snd (make_request ex (ws i) (endpoints ex ! i))"
  by (auto simp: start_def)

lemma gather_Some:
  "gather ts = Some rs \<Longrightarrow> length rs = length ts \<and> (\<forall>i < length ts. ts ! i = Done (rs ! i))"
proof (induction ts arbitrary: rs rule: gather.induct)
  case 1
  then show ?case by simp
next
  case (2 r ts)
  then obtain rs' where g: "gather ts = Some rs'" and rs: "rs = r # rs'"
    by (auto split: option.splits)
  from "2.IH" [OF g] rs show ?case by (auto simp: nth_Cons split: nat.splits)
qed simp_all

lemma gather_results:
  assumes ok: "\<forall>i r. i < length ts \<and> ts ! i = Done r \<longrightarrow>
             r = snd (make_request ex (ws i) (endpoints ex ! i))"
    and g: "gather ts = Some rs"
  shows "rs = map (\<lambda>i. snd (make_request ex (ws i) (endpoints ex ! i))) [0..<length ts]"
proof (rule nth_equalityI)
  show "length rs = length (map (\<lambda>i. snd (make_request ex (ws i) (endpoints ex ! i))) [0..<length ts])"
    using gather_Some [OF g] by simp
next
  fix i assume "i < length rs"
  then have i: "i < length ts" using gather_Some [OF g] by simp
  then have "ts ! i = Done (rs ! i)" using gather_Some [OF g] by simp
  with ok i have "rs ! i = snd (make_request ex (ws i) (endpoints ex ! i))"
    by blast
  with i show "rs ! i = map (\<lambda>i. snd (make_request ex (ws i) (endpoints ex ! i))) [0..<length ts] ! i"
    by simp
qed

lemma gather_None_iff: "gather ts = None \<longleftrightarrow> (\<exists>i < length ts. \<not> is_Done (ts ! i))"
proof (induction ts)
  case Nil
  then show ?case by simp
next
  case (Cons t ts)
  show ?case
  proof (cases t)
    case Waiting
    then have "0 < length (t # ts) \<and> \<not> is_Done ((t # ts) ! 0)" by simp
    then have "\<exists>i<length (t # ts). \<not> is_Done ((t # ts) ! i)" by blast
    with Waiting show ?thesis by simp
  next
    case Running
    then have "0 < length (t # ts) \<and> \<not> is_Done ((t # ts) ! 0)" by simp
    then have "\<exists>i<length (t # ts). \<not> is_Done ((t # ts) ! i)" by blast
    with Running show ?thesis by simp
  next
    case (Done r)
    show ?thesis
    proof
      assume "gather (t # ts) = None"
      then have "gather ts = None" using Done by (simp split: option.splits)
      then obtain i where "i < length ts" "\<not> is_Done (ts ! i)" using Cons.IH by blast
      then have "Suc i < length (t # ts) \<and> \<not> is_Done ((t # ts) ! Suc i)" by simp
      then show "\<exists>i<length (t # ts). \<not> is_Done ((t # ts) ! i)" by blast
    next
      assume "\<exists>i<length (t # ts). \<not> is_Done ((t # ts) ! i)"
      then obtain i where i: "i < length (t # ts)" "\<not> is_Done ((t # ts) ! i)" by blast
      then obtain j where "i = Suc j" using Done by (cases i) auto
      with i have "j < length ts" "\<not> is_Done (ts ! j)" by simp_all
      then have "gather ts = None" using Cons.IH by blast
      then show "gather (t # ts) = None" using Done by simp
    qed
  qed
qed

lemma remaining_fire_waiting:
  "i < length (tasks s) \<Longrightarrow> tasks s ! i = Waiting \<Longrightarrow> 0 < sem_value s \<Longrightarrow>
   remaining (bounded_request_step ex ws s i) < remaining s"
  using sum_weight_update [of i "tasks s" Running]
  by (simp add: bounded_request_step_def remaining_def)

lemma remaining_fire_running:
  "i < length (tasks s) \<Longrightarrow> tasks s ! i = Running \<Longrightarrow>
   remaining (bounded_request_step ex ws s i) < remaining s"
  using sum_weight_update [of i "tasks s" "Done (snd (make_request ex (ws i) (endpoints ex ! i)))"]
  by (simp add: bounded_request_step_def remaining_def)

lemma progress:
  assumes slots: "sem_value s + int (in_flight s) = c" and c: "1 \<le> c"
    and g: "gather (tasks s) = None"
  shows "\<exists>i. remaining (bounded_request_step ex ws s i) < remaining s"
proof (cases "\<exists>j < length (tasks s). tasks s ! j = Running")
  case True
  then show ?thesis using remaining_fire_running by blast
next
  case False
  then have "\<forall>t \<in> set (tasks s). \<not> is_Running t"
    by (metis in_set_conv_nth task.collapse(2))
  then have "in_flight s = 0" by (simp add: in_flight_def)
  with slots c have free: "0 < sem_value s" by simp
  obtain i where i: "i < length (tasks s)" "\<not> is_Done (tasks s ! i)"
    using g gather_None_iff by blast
  with False have "tasks s ! i = Waiting" by (cases "tasks s ! i") auto
  with i free show ?thesis using remaining_fire_waiting by blast
qed

lemma completion:
  "sem_value s + int (in_flight s) = c \<Longrightarrow> 1 \<le> c \<Longrightarrow>
   \<exists>rest. gather (tasks (foldl (bounded_request_step ex ws) s rest)) \<noteq> None"
proof (induction "remaining s" arbitrary: s rule: less_induct)
  case less
  show ?case
  proof (cases "gather (tasks s)")
    case (Some rs)
    then have "gather (tasks (foldl (bounded_request_step ex ws) s [])) \<noteq> None" by simp
    then show ?thesis by blast
  next
    case None
    from progress [OF less.prems None, of ex ws]
    obtain i where dec: "remaining (bounded_request_step ex ws s i) < remaining s" by blast
    have "sem_value (bounded_request_step ex ws s i) + int (in_flight (bounded_request_step ex ws s i)) = c"
      using less.prems(1) by (simp add: fire_slots)
    from less.hyps [OF dec this less.prems(2)]
    obtain rest where "gather (tasks (foldl (bounded_request_step ex ws) (bounded_request_step ex ws s i) rest)) \<noteq> None"
      by blast
    then have "gather (tasks (foldl (bounded_request_step ex ws) s (i # rest))) \<noteq> None" by simp
    then show ?thesis by blast
  qed
qed

lemma after_append:
  "after ex ws v (sched @ rest) = foldl (bounded_request_step ex ws) (after ex ws v sched) rest"
  by (simp add: after_def)

lemma after_slots:
  "sem_value (after ex ws v sched) + int (in_flight (after ex ws v sched)) = v"
  unfolding after_def by (simp add: foldl_fire_slots in_flight_start) (simp add: start_def)

lemma after_results:
  "gather (tasks (after ex ws v sched)) = Some rs \<Longrightarrow>
   rs = map (\<lambda>i. snd (make_request ex (ws i) (endpoints ex ! i))) [0..<length (endpoints ex)]"
proof -
  assume g: "gather (tasks (after ex ws v sched)) = Some rs"
  have len: "length (tasks (after ex ws v sched)) = length (endpoints ex)"
    by (simp add: after_def foldl_fire_length start_def)
  have ok: "\<forall>i r. i < length (tasks (after ex ws v sched)) \<and>
                  tasks (after ex ws v sched) ! i = Done r \<longrightarrow>
                  r = snd (make_request ex (ws i) (endpoints ex ! i))"
    unfolding after_def by (rule results_foldl [OF results_start])
  from gather_results [OF ok g] len show ?thesis by simp
qed

lemma Semaphore_ok: "0 \<le> v \<Longrightarrow> Semaphore v = Inr v"
  by (simp add: Semaphore_def)

lemma fire_blocked:
  "sem_value s = 0 \<Longrightarrow> \<forall>t \<in> set (tasks s). t = Waiting \<Longrightarrow> bounded_request_step ex ws s i = s"
proof (cases "i < length (tasks s)")
  case False
  then show ?thesis by (simp add: bounded_request_step_def)
next
  case True
  assume "\<forall>t \<in> set (tasks s). t = Waiting" and "sem_value s = 0"
  with True have "tasks s ! i = Waiting" "sem_value s = 0" by simp_all
  with True show ?thesis by (simp add: bounded_request_step_def)
qed

lemma after_blocked: "after ex ws 0 sched = start ex 0"
proof -
  have "\<And>s. sem_value s = 0 \<Longrightarrow> \<forall>t \<in> set (tasks s). t = Waiting \<Longrightarrow>
         foldl (bounded_request_step ex ws) s sched = s"
    by (induction sched) (simp_all add: fire_blocked)
  then show ?thesis by (simp add: after_def start_def)
qed

lemma gather_waiting: "0 < n \<Longrightarrow> gather (replicate n Waiting) = None"
  by (cases n) simp_all

lemma list_of_three: "length xs = 3 \<Longrightarrow> xs = [xs ! 0, xs ! 1, xs ! 2]"
  by (auto simp: length_Suc_conv numeral_3_eq_3)

section \<open>Whole runs\<close>

lemma make_request_cases:
  "(\<exists>e. make_request ex w ep = ([], Inl e))
   \<or> (\<exists>m rc. method_upper w ep = Inr m \<and> range_stop (retry_count ex) = Inr rc
              \<and> make_request ex w ep = attempts_from ex w ep m rc 0)"
  by (cases "method_upper w ep"; cases "range_stop (retry_count ex)")
    (simp_all add: make_request_def)

lemma scrape_static_cases:
  "(\<exists>e. scrape_static sc w u = ([], Inl e))
   \<or> (\<exists>rc. range_stop (sc_retry_count sc) = Inr rc
            \<and> scrape_static sc w u = static_from sc w u rc 0)"
  by (cases "range_stop (sc_retry_count sc)") (simp_all add: scrape_static_def)

lemma fetch_cases:
  "(\<exists>e. fetch sc w u = ([], Inl e))
   \<or> (\<exists>rc. range_stop (sc_retry_count sc) = Inr rc \<and> fetch sc w u = fetch_from sc w u rc 0)"
  by (cases "range_stop (sc_retry_count sc)") (simp_all add: fetch_def)

lemma static_all_fail_trace:
  assumes rc: "1 \<le> rc"
    and fails: "\<And>a. int a < rc \<Longrightarrow> static_body sc w u a = Inl (e a)"
  shows "fst (static_from sc w u rc 0) =
           concat (map (\<lambda>a. [PageGet u, LogWarning (a + 1) (str_exn (e a))] @
                             (if int a < rc - 1 then [BackoffSleep (2 ^ a)] else [LogError rc]))
                       [0..<nat rc])"
proof -
  define n where "n = nat (rc - 1)"
  define G where "G = (\<lambda>a. [PageGet u, LogWarning (a + 1) (str_exn (e a))] @
                             (if int a < rc - 1 then [BackoffSleep (2 ^ a)] else [LogError rc]))"
  have lt: "int n < rc" and last: "\<not> int n < rc - 1" and n: "nat rc = Suc n"
    using rc by (simp_all add: n_def)
  have f: "\<And>i. i < n \<Longrightarrow> isl (static_body sc w u i)"
    using fails lt by simp
  have pre: "map G [0..<n] = map (failed_static_round sc w u) [0..<n]"
    using fails lt by (auto simp: failed_static_round_def G_def n_def)
  have Gn: "G n = [PageGet u, LogWarning (n + 1) (str_exn (e n)), LogError rc]"
    using last by (simp add: G_def)
  have "fst (static_from sc w u rc 0) =
          concat (map (failed_static_round sc w u) [0..<n]) @ G n"
    using static_skip [OF f lt] static_from_last [OF lt last fails [OF lt]] by (simp add: Gn)
  then have "fst (static_from sc w u rc 0) = concat (map G [0..<nat rc])"
    unfolding n by (simp add: pre)
  then show ?thesis unfolding G_def .
qed

section \<open>C1: the batch returns one result per endpoint, in the order of the endpoints\<close>

text \<open>
  Claim C1. With a concurrency of at least 1, whatever order the event loop runs the tasks
  in: when \<open>run_async\<close> returns, the list has one entry per endpoint and entry \<open>i\<close> is what
  \<open>make_request\<close> produced for endpoint \<open>i\<close> (the dictionary of its error when it raised);
  from every point of a run the batch can be brought to its end, so \<open>run_async\<close> does
  return; and an empty batch returns the empty list without running anything.
\<close>

theorem run_async_order_aligned:
  assumes c: "1 \<le> concurrency ex"
  shows "(\<forall>sched rs. run_async ex ws sched = Returned rs \<longrightarrow>
            length rs = length (endpoints ex) \<and>
            (\<forall>i < length (endpoints ex).
               rs ! i = process_result (snd (make_request ex (ws i) (endpoints ex ! i)))))
       \<and> (\<forall>sched. \<exists>rest rs. run_async ex ws (sched @ rest) = Returned rs)
       \<and> (endpoints ex = [] \<longrightarrow> run_async ex ws [] = Returned [])"
proof -
  have sem: "Semaphore (concurrency ex) = Inr (concurrency ex)"
    using c by (simp add: Semaphore_ok)
  have a: "\<forall>sched rs. run_async ex ws sched = Returned rs \<longrightarrow>
            length rs = length (endpoints ex) \<and>
            (\<forall>i < length (endpoints ex).
               rs ! i = process_result (snd (make_request ex (ws i) (endpoints ex ! i))))"
  proof (intro allI impI)
    fix sched rs assume r: "run_async ex ws sched = Returned rs"
    then obtain results where g: "gather (tasks (after ex ws (concurrency ex) sched)) = Some results"
      and rs: "rs = map process_result results"
      by (auto simp: run_async_def sem split: option.splits)
    from after_results [OF g] rs
    show "length rs = length (endpoints ex) \<and>
            (\<forall>i < length (endpoints ex).
               rs ! i = process_result (snd (make_request ex (ws i) (endpoints ex ! i))))"
      by simp
  qed
  have b: "\<forall>sched. \<exists>rest rs. run_async ex ws (sched @ rest) = Returned rs"
  proof
    fix sched
    from completion [OF after_slots [of ex ws "concurrency ex" sched] c, of ex ws]
    obtain rest where "gather (tasks (foldl (bounded_request_step ex ws) (after ex ws (concurrency ex) sched) rest)) \<noteq> None"
      by blast
    then obtain results where "gather (tasks (after ex ws (concurrency ex) (sched @ rest))) = Some results"
      by (auto simp: after_append)
    then have "run_async ex ws (sched @ rest) = Returned (map process_result results)"
      by (simp add: run_async_def sem)
    then show "\<exists>rest rs. run_async ex ws (sched @ rest) = Returned rs" by blast
  qed
  have e: "endpoints ex = [] \<longrightarrow> run_async ex ws [] = Returned []"
    by (simp add: run_async_def sem after_def start_def)
  from a b e show ?thesis by blast
qed

text \<open>
  Three endpoints under a concurrency of 2, the second task finishing first and the third
  starting only then: the results are in the order of the endpoints.
\<close>

theorem run_async_order_aligned_witness:
  "1 \<le> concurrency batch
   \<and> run_async batch hosts [1, 0, 1, 2, 0, 2] =
       Returned
        [Some (response_dict ''https://httpbin.org/get'' ok_response),
         Some [(''url'', PStr ''https://httpbin.org/patch''),
               (''error'', PStr ''Unsupported HTTP method: PATCH'')],
         Some [(''url'', PStr ''https://httpbin.org/get''),
               (''error'', PStr ''Cannot connect to host'')]]"
proof -
  have c: "1 \<le> concurrency batch" by (simp add: batch_def)
  have "gather (tasks (after batch hosts 2 [1, 0, 1, 2, 0, 2])) \<noteq> None"
    by (simp add: after_def start_def bounded_request_step_def batch_def)
  then obtain rs where ret: "run_async batch hosts [1, 0, 1, 2, 0, 2] = Returned rs"
    by (auto simp: run_async_def Semaphore_def batch_def)
  have eps: "endpoints batch = [test_endpoint, patch_endpoint, test_endpoint]"
    and rs3: "range_stop (retry_count batch) = Inr 3"
    by (simp_all add: batch_def)
  have h: "hosts 0 = flaky" "hosts 1 = down" "hosts 2 = down"
    by (simp_all add: hosts_def)
  have r0: "snd (make_request batch (hosts 0) test_endpoint) =
              Inr (Some (response_dict ''https://httpbin.org/get'' ok_response))"
    unfolding h make_request_loop [OF method_flaky rs3]
    by (simp add: attempts_from.simps try_body_def dispatch_test_endpoint flaky_def)
      (simp add: test_endpoint_def)
  have r1: "snd (make_request batch (hosts 1) patch_endpoint) =
              Inr (Some [(''url'', PStr ''https://httpbin.org/patch''),
                         (''error'', PStr ''Unsupported HTTP method: PATCH'')])"
    unfolding h make_request_loop [OF method_down_patch rs3]
    by (simp add: attempts_from.simps try_body_def dispatch_patch_endpoint error_dict_def
        unsupported_method_def)
      (simp add: patch_endpoint_def)
  have r2: "snd (make_request batch (hosts 2) test_endpoint) =
              Inr (Some [(''url'', PStr ''https://httpbin.org/get''),
                         (''error'', PStr ''Cannot connect to host'')])"
    unfolding h make_request_loop [OF method_down rs3]
    by (simp add: attempts_from.simps try_body_def dispatch_test_endpoint down_def
        error_dict_def connection_refused_def)
      (simp add: test_endpoint_def)
  from run_async_order_aligned [OF c, of hosts] ret
  have len: "length rs = length (endpoints batch)"
    and el: "\<forall>i < length (endpoints batch).
           rs ! i = process_result (snd (make_request batch (hosts i) (endpoints batch ! i)))"
    by blast+
  have len3: "length rs = 3" using len by (simp add: eps)
  have "rs ! 0 = process_result (snd (make_request batch (hosts 0) test_endpoint))"
    using el [rule_format, of 0] by (simp add: eps)
  then have e0: "rs ! 0 = Some (response_dict ''https://httpbin.org/get'' ok_response)"
    by (simp add: r0 process_result_def)
  have "rs ! 1 = process_result (snd (make_request batch (hosts 1) patch_endpoint))"
    using el [rule_format, of 1] by (simp add: eps)
  then have e1: "rs ! 1 = Some [(''url'', PStr ''https://httpbin.org/patch''),
                               (''error'', PStr ''Unsupported HTTP method: PATCH'')]"
    by (simp only: r1 process_result_def sum.case)
  have "rs ! 2 = process_result (snd (make_request batch (hosts 2) test_endpoint))"
    using el [rule_format, of 2] by (simp add: eps)
  then have e2: "rs ! 2 = Some [(''url'', PStr ''https://httpbin.org/get''),
                               (''error'', PStr ''Cannot connect to host'')]"
    by (simp only: r2 process_result_def sum.case)
  have "rs = [rs ! 0, rs ! 1, rs ! 2]" using len3 by (rule list_of_three)
  then have "rs = [Some (response_dict ''https://httpbin.org/get'' ok_response),
         Some [(''url'', PStr ''https://httpbin.org/patch''),
               (''error'', PStr ''Unsupported HTTP method: PATCH'')],
         Some [(''url'', PStr ''https://httpbin.org/get''),
               (''error'', PStr ''Cannot connect to host'')]]"
    by (simp only: e0 e1 e2)
  with ret c show ?thesis by simp
qed

section \<open>C2: exceptions of an attempt and the caller of the unit\<close>




section \<open>C3: success on a later attempt\<close>

text \<open>
  Claim C3. For a method that is one of the four and an integer retry count: when the
  session raises in the attempts before attempt \<open>k\<close> and answers in attempt \<open>k\<close>, with
  \<open>1 \<le> k \<le> retry_count\<close>, \<open>make_request\<close> returns the success dictionary of that answer,
  with the URL and the status, headers and text of the answer; the session has been called
  exactly \<open>k\<close> times; and that call is the last effect of the unit: nothing is invoked
  after the success.
\<close>

theorem succeeds_on_attempt_k:
  assumes mu: "method_upper w ep = Inr m" and disp: "dispatch ep m = Some c"
    and rs: "range_stop (retry_count ex) = Inr rc"
    and k: "1 \<le> k" "int k \<le> rc"
    and fails: "\<forall>a. a < k - 1 \<longrightarrow> isl (http w c a)"
    and ok: "http w c (k - 1) = Inr r"
  shows "snd (make_request ex w ep) =
           Inr (Some [(''url'', PStr (ep_url ep)), (''status'', PInt (resp_status r)),
                      (''headers'', PHeaders (resp_headers r)), (''data'', PStr (resp_text r))])
       \<and> invocations (fst (make_request ex w ep)) = k
       \<and> last (fst (make_request ex w ep)) = Request c"
proof -
  have lt: "int (k - 1) < rc" using k by simp
  have f: "\<And>i. i < k - 1 \<Longrightarrow> isl (snd (try_body ex w ep m i))"
    using fails disp by (auto simp: try_body_some isl_def)
  have fin: "attempts_from ex w ep m rc (k - 1) =
      ([PaceSleep (uniform (delay_range ex) (rnd w (k - 1))), Request c],
       Inr (Some (response_dict (ep_url ep) r)))"
    using attempts_from_ok [OF lt] disp ok by (simp add: try_body_some)
  have eq: "make_request ex w ep =
     (concat (map (failed_round ex w ep m) [0..<k - 1]) @
        [PaceSleep (uniform (delay_range ex) (rnd w (k - 1))), Request c],
      Inr (Some (response_dict (ep_url ep) r)))"
    unfolding make_request_loop [OF mu rs] using attempts_skip [OF f lt] fin by simp
  have inv1: "\<And>a. a \<in> set [0..<k - 1] \<Longrightarrow> invocations (failed_round ex w ep m a) = 1"
  proof -
    fix a assume "a \<in> set [0..<k - 1]"
    then have "isl (http w c a)" using fails by simp
    then obtain e where "http w c a = Inl e" by (auto simp: isl_def)
    then show "invocations (failed_round ex w ep m a) = 1"
      using disp by (simp add: failed_round_some invocations_def)
  qed
  have "invocations (concat (map (failed_round ex w ep m) [0..<k - 1])) = k - 1"
    using sum_list_const [of "[0..<k - 1]" "\<lambda>a. invocations (failed_round ex w ep m a)" 1] inv1
    by (simp add: invocations_concat comp_def)
  then have "invocations (fst (make_request ex w ep)) = k"
    using k by (simp add: eq invocations_append) (simp add: invocations_def)
  then show ?thesis by (simp add: eq response_dict_def)
qed

theorem succeeds_on_attempt_k_witness:
  "snd (make_request test_executor flaky test_endpoint) =
     Inr (Some [(''url'', PStr ''https://httpbin.org/get''), (''status'', PInt 200),
                (''headers'', PHeaders []), (''data'', PStr ''{}'')])
   \<and> invocations (fst (make_request test_executor flaky test_endpoint)) = 3
   \<and> last (fst (make_request test_executor flaky test_endpoint)) =
       Request (SessionGet ''https://httpbin.org/get'' [] [])"
proof -
  let ?c = "SessionGet ''https://httpbin.org/get'' [] []"
  have rs: "range_stop (retry_count test_executor) = Inr 3"
    by (simp add: test_executor_def)
  have k: "(1::nat) \<le> 3" "int 3 \<le> 3"
    by simp_all
  have f: "\<forall>a. a < 3 - 1 \<longrightarrow> isl (http flaky ?c a)"
    by (simp add: flaky_def)
  have ok: "http flaky ?c (3 - 1) = Inr ok_response"
    by (simp add: flaky_def)
  show ?thesis
    using succeeds_on_attempt_k [OF method_flaky dispatch_test_endpoint rs k f ok]
    by (simp add: test_endpoint_def ok_response_def)
qed

section \<open>C4: every attempt fails\<close>

text \<open>
  Claim C4 as stated fails: the dictionary returned after the last failure has the keys
  \<open>url\<close> and \<open>error\<close> only. One attempt and three attempts against the same host return the
  same dictionary, so the number of attempts cannot be read from it.
\<close>

theorem error_record_counterexample:
  "snd (make_request one_attempt down test_endpoint) =
     Inr (Some [(''url'', PStr ''https://httpbin.org/get''),
                (''error'', PStr ''Cannot connect to host'')])
   \<and> snd (make_request test_executor down test_endpoint) =
     Inr (Some [(''url'', PStr ''https://httpbin.org/get''),
                (''error'', PStr ''Cannot connect to host'')])
   \<and> invocations (fst (make_request one_attempt down test_endpoint)) = 1
   \<and> invocations (fst (make_request test_executor down test_endpoint)) = 3"
proof -
  have r1: "range_stop (retry_count one_attempt) = Inr 1"
    and r3: "range_stop (retry_count test_executor) = Inr 3"
    by (simp_all add: one_attempt_def test_executor_def)
  show ?thesis
    unfolding make_request_loop [OF method_down r1] make_request_loop [OF method_down r3]
    by (simp add: attempts_from.simps try_body_def dispatch_test_endpoint down_def
        error_dict_def connection_refused_def invocations_def)
      (simp add: test_endpoint_def)
qed

text \<open>
  Claim C4, amended. For a method that is one of the four and an integer retry count of at
  least 1: when the session raises in every attempt, \<open>make_request\<close> returns the dictionary
  with the keys \<open>url\<close> and \<open>error\<close>, the error being the text of the exception of the last
  attempt; the session has been called as many times as the retry count says, and that
  number is written to the log as the last effect, not into the dictionary.
\<close>

theorem always_failing:
  assumes mu: "method_upper w ep = Inr m" and disp: "dispatch ep m = Some c"
    and rs: "range_stop (retry_count ex) = Inr rc"
    and rc: "1 \<le> rc"
    and fails: "\<forall>a. int a < rc \<longrightarrow> http w c a = Inl (e a)"
  shows "snd (make_request ex w ep) =
           Inr (Some [(''url'', PStr (ep_url ep)),
                      (''error'', PStr (str_exn (e (nat (rc - 1)))))])
       \<and> int (invocations (fst (make_request ex w ep))) = rc
       \<and> last (fst (make_request ex w ep)) = LogError rc"
proof -
  define n where "n = nat (rc - 1)"
  have lt: "int n < rc" using rc by (simp add: n_def)
  have f: "\<And>i. int i < rc \<Longrightarrow> isl (snd (try_body ex w ep m i))"
    using fails disp by (simp add: try_body_some)
  have tbn: "try_body ex w ep m n =
      ([PaceSleep (uniform (delay_range ex) (rnd w n)), Request c], Inl (e n))"
    using fails lt disp by (simp add: try_body_some)
  have eq: "make_request ex w ep =
     (concat (map (failed_round ex w ep m) [0..<n]) @
        [PaceSleep (uniform (delay_range ex) (rnd w n)), Request c,
         LogWarning (n + 1) (str_exn (e n)), LogError rc],
      Inr (Some (error_dict (ep_url ep) (e n))))"
    using all_fail [OF mu rs rc f] tbn unfolding n_def [symmetric] by simp
  have inv1: "\<And>a. a \<in> set [0..<n] \<Longrightarrow> invocations (failed_round ex w ep m a) = 1"
  proof -
    fix a assume "a \<in> set [0..<n]"
    then have "http w c a = Inl (e a)" using fails lt by simp
    then show "invocations (failed_round ex w ep m a) = 1"
      using disp by (simp add: failed_round_some invocations_def)
  qed
  have "invocations (concat (map (failed_round ex w ep m) [0..<n])) = n"
    using sum_list_const [of "[0..<n]" "\<lambda>a. invocations (failed_round ex w ep m a)" 1] inv1
    by (simp add: invocations_concat comp_def)
  then have "invocations (fst (make_request ex w ep)) = Suc n"
    by (simp add: eq invocations_append) (simp add: invocations_def)
  moreover have "int (Suc n) = rc" using rc by (simp add: n_def)
  ultimately show ?thesis by (simp add: eq error_dict_def n_def)
qed

theorem always_failing_witness:
  "snd (make_request test_executor down test_endpoint) =
     Inr (Some [(''url'', PStr ''https://httpbin.org/get''),
                (''error'', PStr ''Cannot connect to host'')])
   \<and> invocations (fst (make_request test_executor down test_endpoint)) = 3
   \<and> last (fst (make_request test_executor down test_endpoint)) = LogError 3"
proof -
  have rs: "range_stop (retry_count test_executor) = Inr 3"
    by (simp add: test_executor_def)
  have rc: "(1::int) \<le> 3" by simp
  have f: "\<forall>a. int a < 3 \<longrightarrow>
             http down (SessionGet ''https://httpbin.org/get'' [] []) a = Inl connection_refused"
    by (simp add: down_def)
  show ?thesis
    using always_failing [OF method_down dispatch_test_endpoint rs rc f]
    by (simp add: test_endpoint_def connection_refused_def)
qed

section \<open>C5: construction does not check the configuration\<close>

text \<open>
  Claim C5 as stated fails: a configuration with concurrency \<open>-1\<close>, retry \<open>-1\<close> and the
  delay range \<open>[3, 1]\<close> is accepted by \<open>__init__\<close>, and the concurrency then makes
  \<open>run_async\<close> raise when it creates the semaphore.
\<close>

theorem construction_counterexample:
  "init bad_config = Inr bad_executor
   \<and> run_async bad_executor hosts [] =
       Raised (Exn ''ValueError'' ''Semaphore initial value must be >= 0'')"
  by (simp add: init_def bad_config_def bad_executor_def get_default_def run_async_def
      Semaphore_def)

text \<open>
  Claim C5, amended. Construction never fails and checks nothing: it stores the
  concurrency, the retry count and the delay range of the configuration as they are, with
  the defaults 5, 3 and \<open>[1, 3]\<close>. A negative concurrency is met when the batch is run:
  \<open>run_async\<close> raises \<open>ValueError\<close>; with concurrency 0 and at least one endpoint
  \<open>run_async\<close> never returns.
\<close>

theorem construction_unchecked:
  "(\<exists>ex. init cfg = Inr ex
         \<and> concurrency ex = get_default (cfg_concurrency cfg) 5
         \<and> retry_count ex = get_default (cfg_retry cfg) (PyInt 3)
         \<and> delay_range ex = get_default (cfg_delay_range cfg) (1, 3))
   \<and> (concurrency ex' < 0 \<longrightarrow>
         run_async ex' ws sched = Raised (Exn ''ValueError'' ''Semaphore initial value must be >= 0''))
   \<and> (concurrency ex' = 0 \<and> endpoints ex' \<noteq> [] \<longrightarrow> run_async ex' ws sched = Awaiting)"
proof -
  have a: "\<exists>ex. init cfg = Inr ex
         \<and> concurrency ex = get_default (cfg_concurrency cfg) 5
         \<and> retry_count ex = get_default (cfg_retry cfg) (PyInt 3)
         \<and> delay_range ex = get_default (cfg_delay_range cfg) (1, 3)"
    by (simp add: init_def)
  have b: "concurrency ex' < 0 \<longrightarrow>
         run_async ex' ws sched = Raised (Exn ''ValueError'' ''Semaphore initial value must be >= 0'')"
    by (simp add: run_async_def Semaphore_def)
  have c: "concurrency ex' = 0 \<and> endpoints ex' \<noteq> [] \<longrightarrow> run_async ex' ws sched = Awaiting"
    by (simp add: run_async_def Semaphore_def after_blocked start_def gather_waiting)
  from a b c show ?thesis by blast
qed

theorem construction_unchecked_witness:
  "(\<exists>ex. init bad_config = Inr ex \<and> concurrency ex = - 1 \<and> retry_count ex = PyInt (- 1)
         \<and> delay_range ex = (3, 1))
   \<and> run_async bad_executor hosts [0, 0] =
       Raised (Exn ''ValueError'' ''Semaphore initial value must be >= 0'')
   \<and> run_async (test_executor\<lparr>concurrency := 0\<rparr>) hosts [0, 0] = Awaiting"
proof -
  have neg: "concurrency bad_executor < 0"
    by (simp add: bad_executor_def)
  have zero: "concurrency (test_executor\<lparr>concurrency := 0\<rparr>) = 0
              \<and> endpoints (test_executor\<lparr>concurrency := 0\<rparr>) \<noteq> []"
    by (simp add: test_executor_def)
  have cfg: "get_default (cfg_concurrency bad_config) 5 = - 1"
    "get_default (cfg_retry bad_config) (PyInt 3) = PyInt (- 1)"
    "get_default (cfg_delay_range bad_config) (1, 3) = (3, 1)"
    by (simp_all add: bad_config_def get_default_def)
  show ?thesis
    using construction_unchecked [of bad_config bad_executor hosts "[0, 0]"]
      construction_unchecked [of bad_config "test_executor\<lparr>concurrency := 0\<rparr>" hosts "[0, 0]"]
      neg zero cfg
    by simp
qed

section \<open>C6: the backoff between attempts\<close>

text \<open>
  Claim C6. In every run of \<open>make_request\<close> and of \<open>scrape_static\<close> with an integer retry
  count, a backoff is slept only directly after the warning of a failed attempt \<open>a + 1\<close>
  that is not the last one, it lasts \<open>2 ^ a\<close>, and another attempt follows it; nothing is
  slept after the last attempt. When the attempts before attempt \<open>j + 1\<close> fail and that
  attempt succeeds or is the last one, the backoffs of the run are \<open>2 ^ a\<close> for
  \<open>a = 0, ..., j - 1\<close>, in this order: one between every failed attempt and the next, so
  \<open>2 ^ 0, ..., 2 ^ (retry_count - 2)\<close> when every attempt fails. The run of \<open>scrape_static\<close>
  in which every attempt fails is written out in full.
\<close>

theorem backoff_delays:
  "(range_stop (retry_count ex) = Inr rc \<longrightarrow> backoff_ok rc (fst (make_request ex w ep)))
   \<and> (range_stop (sc_retry_count sc) = Inr rc' \<longrightarrow>
        backoff_ok rc' (fst (scrape_static sc sw u)))
   \<and> (method_upper w ep = Inr m \<and> range_stop (retry_count ex) = Inr rc
        \<and> (\<forall>a. a < j \<longrightarrow> isl (snd (try_body ex w ep m a))) \<and> int j < rc
        \<and> (\<not> isl (snd (try_body ex w ep m j)) \<or> int j = rc - 1) \<longrightarrow>
        backoffs (fst (make_request ex w ep)) = map (\<lambda>a. 2 ^ a) [0..<j])
   \<and> (range_stop (sc_retry_count sc) = Inr rc'
        \<and> (\<forall>a. a < j' \<longrightarrow> isl (static_body sc sw u a)) \<and> int j' < rc'
        \<and> (\<not> isl (static_body sc sw u j') \<or> int j' = rc' - 1) \<longrightarrow>
        backoffs (fst (scrape_static sc sw u)) = map (\<lambda>a. 2 ^ a) [0..<j'])
   \<and> (range_stop (sc_retry_count sc) = Inr rc' \<and> 1 \<le> rc'
        \<and> (\<forall>a. int a < rc' \<longrightarrow> static_body sc sw u a = Inl (e a)) \<longrightarrow>
        fst (scrape_static sc sw u) =
          concat (map (\<lambda>a. [PageGet u, LogWarning (a + 1) (str_exn (e a))] @
                            (if int a < rc' - 1 then [BackoffSleep (2 ^ a)]
                             else [LogError rc']))
                      [0..<nat rc']))"
proof -
  have a: "range_stop (retry_count ex) = Inr rc \<longrightarrow> backoff_ok rc (fst (make_request ex w ep))"
    using make_request_cases [of ex w ep] backoff_ok_attempts [of rc ex w ep]
    by auto
  have b: "range_stop (sc_retry_count sc) = Inr rc' \<longrightarrow>
        backoff_ok rc' (fst (scrape_static sc sw u))"
    using scrape_static_cases [of sc sw u] backoff_ok_static [of rc' sc sw u]
    by auto
  have c: "method_upper w ep = Inr m \<and> range_stop (retry_count ex) = Inr rc
        \<and> (\<forall>a. a < j \<longrightarrow> isl (snd (try_body ex w ep m a))) \<and> int j < rc
        \<and> (\<not> isl (snd (try_body ex w ep m j)) \<or> int j = rc - 1) \<longrightarrow>
        backoffs (fst (make_request ex w ep)) = map (\<lambda>a. 2 ^ a) [0..<j]"
  proof
    assume h: "method_upper w ep = Inr m \<and> range_stop (retry_count ex) = Inr rc
        \<and> (\<forall>a. a < j \<longrightarrow> isl (snd (try_body ex w ep m a))) \<and> int j < rc
        \<and> (\<not> isl (snd (try_body ex w ep m j)) \<or> int j = rc - 1)"
    then have mu: "method_upper w ep = Inr m" and rs: "range_stop (retry_count ex) = Inr rc"
      and f: "\<And>a. a < j \<Longrightarrow> isl (snd (try_body ex w ep m a))" and lt: "int j < rc"
      and l: "\<not> isl (snd (try_body ex w ep m j)) \<or> int j = rc - 1"
      by simp_all
    show "backoffs (fst (make_request ex w ep)) = map (\<lambda>a. 2 ^ a) [0..<j]"
      unfolding make_request_loop [OF mu rs] by (rule backoffs_attempts [OF f lt l])
  qed
  have d: "range_stop (sc_retry_count sc) = Inr rc'
        \<and> (\<forall>a. a < j' \<longrightarrow> isl (static_body sc sw u a)) \<and> int j' < rc'
        \<and> (\<not> isl (static_body sc sw u j') \<or> int j' = rc' - 1) \<longrightarrow>
        backoffs (fst (scrape_static sc sw u)) = map (\<lambda>a. 2 ^ a) [0..<j']"
  proof
    assume h: "range_stop (sc_retry_count sc) = Inr rc'
        \<and> (\<forall>a. a < j' \<longrightarrow> isl (static_body sc sw u a)) \<and> int j' < rc'
        \<and> (\<not> isl (static_body sc sw u j') \<or> int j' = rc' - 1)"
    then have rs: "range_stop (sc_retry_count sc) = Inr rc'"
      and f: "\<And>a. a < j' \<Longrightarrow> isl (static_body sc sw u a)" and lt: "int j' < rc'"
      and l: "\<not> isl (static_body sc sw u j') \<or> int j' = rc' - 1"
      by simp_all
    have "backoffs (fst (static_from sc sw u rc' 0)) = map (\<lambda>a. 2 ^ a) [0..<j']"
      by (rule backoffs_static [OF f lt l])
    with rs show "backoffs (fst (scrape_static sc sw u)) = map (\<lambda>a. 2 ^ a) [0..<j']"
      by (simp add: scrape_static_def)
  qed
  have f: "range_stop (sc_retry_count sc) = Inr rc' \<and> 1 \<le> rc'
        \<and> (\<forall>a. int a < rc' \<longrightarrow> static_body sc sw u a = Inl (e a)) \<longrightarrow>
        fst (scrape_static sc sw u) =
          concat (map (\<lambda>a. [PageGet u, LogWarning (a + 1) (str_exn (e a))] @
                            (if int a < rc' - 1 then [BackoffSleep (2 ^ a)]
                             else [LogError rc']))
                      [0..<nat rc'])"
  proof
    assume h: "range_stop (sc_retry_count sc) = Inr rc' \<and> 1 \<le> rc'
        \<and> (\<forall>a. int a < rc' \<longrightarrow> static_body sc sw u a = Inl (e a))"
    then have rs: "range_stop (sc_retry_count sc) = Inr rc'" and rc: "1 \<le> rc'"
      and fl: "\<And>a. int a < rc' \<Longrightarrow> static_body sc sw u a = Inl (e a)"
      by simp_all
    from static_all_fail_trace [OF rc fl] rs
    show "fst (scrape_static sc sw u) =
          concat (map (\<lambda>a. [PageGet u, LogWarning (a + 1) (str_exn (e a))] @
                            (if int a < rc' - 1 then [BackoffSleep (2 ^ a)]
                             else [LogError rc']))
                      [0..<nat rc'])"
      by (simp add: scrape_static_def)
  qed
  from a b c d f show ?thesis by blast
qed

text \<open>
  A host and a site that are down in all three attempts, and a host that answers in the
  third: the backoffs are 1 and 2, each between a failed attempt and the next.
\<close>

theorem backoff_delays_witness:
  "backoff_ok 3 (fst (make_request test_executor down test_endpoint))
   \<and> backoff_ok 3 (fst (scrape_static test_scraper site_down ''https://httpbin.org''))
   \<and> backoffs (fst (make_request test_executor down test_endpoint)) = [1, 2]
   \<and> backoffs (fst (make_request test_executor flaky test_endpoint)) = [1, 2]
   \<and> backoffs (fst (scrape_static test_scraper site_down ''https://httpbin.org'')) = [1, 2]
   \<and> fst (scrape_static test_scraper site_down ''https://httpbin.org'') =
       [PageGet ''https://httpbin.org'', LogWarning 1 ''500 Server Error'', BackoffSleep 1,
        PageGet ''https://httpbin.org'', LogWarning 2 ''500 Server Error'', BackoffSleep 2,
        PageGet ''https://httpbin.org'', LogWarning 3 ''500 Server Error'', LogError 3]"
proof -
  let ?u = "''https://httpbin.org''"
  have rs: "range_stop (retry_count test_executor) = Inr 3"
    "range_stop (sc_retry_count test_scraper) = Inr 3"
    by (simp_all add: test_executor_def test_scraper_def)
  have fd: "\<forall>a. a < 2 \<longrightarrow> isl (snd (try_body test_executor down test_endpoint ''GET'' a))"
    and ff: "\<forall>a. a < 2 \<longrightarrow> isl (snd (try_body test_executor flaky test_endpoint ''GET'' a))"
    and lf: "\<not> isl (snd (try_body test_executor flaky test_endpoint ''GET'' 2))"
    by (simp_all add: try_body_some [OF dispatch_test_endpoint] down_def flaky_def)
  have fs: "\<forall>a. a < 2 \<longrightarrow> isl (static_body test_scraper site_down ?u a)"
    and es: "\<forall>a. int a < 3 \<longrightarrow> static_body test_scraper site_down ?u a = Inl server_error"
    by (simp_all add: static_body_def site_down_def)
  have j: "int 2 < 3" "int 2 = 3 - 1" "(1::int) \<le> 3" by simp_all
  have up: "map (\<lambda>a. 2 ^ a) [0..<2] = [1, 2 :: nat]" "[0..<nat 3] = [0, 1, 2]"
    by (simp_all add: upt_rec)
  have msg: "str_exn server_error = ''500 Server Error''"
    by (simp add: server_error_def)
  note down_run = backoff_delays
    [of test_executor 3 down test_endpoint test_scraper 3 site_down ?u "''GET''" 2 2
        "\<lambda>a. server_error"]
  note flaky_run = backoff_delays
    [of test_executor 3 flaky test_endpoint test_scraper 3 site_down ?u "''GET''" 2 2
        "\<lambda>a. server_error"]
  have a: "backoff_ok 3 (fst (make_request test_executor down test_endpoint))"
    and b: "backoff_ok 3 (fst (scrape_static test_scraper site_down ?u))"
    using down_run rs by blast+
  have c: "backoffs (fst (make_request test_executor down test_endpoint)) = [1, 2]"
    using down_run rs method_down fd j up by simp
  have d: "backoffs (fst (make_request test_executor flaky test_endpoint)) = [1, 2]"
    using flaky_run rs method_flaky ff lf j up by simp
  have e: "backoffs (fst (scrape_static test_scraper site_down ?u)) = [1, 2]"
    using down_run rs fs j up by simp
  have f: "fst (scrape_static test_scraper site_down ?u) =
       [PageGet ?u, LogWarning 1 ''500 Server Error'', BackoffSleep 1,
        PageGet ?u, LogWarning 2 ''500 Server Error'', BackoffSleep 2,
        PageGet ?u, LogWarning 3 ''500 Server Error'', LogError 3]"
    using down_run rs es j up msg by simp
  from a b c d e f show ?thesis by blast
qed

section \<open>C7: a retry count of 0\<close>

text \<open>
  Claim C7 fails on the code at a retry count of 0: for a method that is a string or
  absent, the loop has no iteration and \<open>make_request\<close> ends without a \<open>return\<close>, so its
  caller gets \<open>None\<close>, neither a response nor an error dictionary, and no attempt has been
  made. With a retry count of 1 or more it does return a dictionary.
\<close>

theorem make_request_falls_through:
  assumes "method_upper w ep = Inr m" and "range_stop (retry_count ex) = Inr rc"
  shows "(rc \<le> 0 \<longrightarrow> make_request ex w ep = ([], Inr None))
       \<and> (1 \<le> rc \<longrightarrow> (\<exists>d. snd (make_request ex w ep) = Inr (Some d)))"
  unfolding make_request_loop [OF assms]
  using attempts_from_returns [of 0 rc ex w ep m]
  by (simp add: attempts_from_exit)

theorem make_request_falls_through_witness:
  "make_request no_attempt down test_endpoint = ([], Inr None)
   \<and> (\<exists>d. snd (make_request one_attempt down test_endpoint) = Inr (Some d))"
proof -
  have r0: "range_stop (retry_count no_attempt) = Inr 0"
    and r1: "range_stop (retry_count one_attempt) = Inr 1"
    by (simp_all add: no_attempt_def one_attempt_def test_executor_def)
  show ?thesis
    using make_request_falls_through [OF method_down r0]
      make_request_falls_through [OF method_down r1]
    by simp
qed

section \<open>C8: the units in flight\<close>

text \<open>
  Claim C8. Once the semaphore has been created, after any sequence of moves of the
  event loop the number of units that hold a slot, and so are inside \<open>make_request\<close>, is at
  most the configured concurrency, whatever the size of the batch.
\<close>

theorem in_flight_bounded:
  assumes "Semaphore (concurrency ex) = Inr v"
  shows "int (in_flight (after ex ws v sched)) \<le> concurrency ex"
proof -
  from assms have v: "v = concurrency ex" "0 \<le> v"
    by (auto simp: Semaphore_def split: if_splits)
  have "0 \<le> sem_value (after ex ws v sched)"
    unfolding after_def using v by (intro foldl_fire_sem_nonneg) (simp add: start_def)
  with after_slots [of ex ws v sched] v show ?thesis by simp
qed

text \<open>Three endpoints under a concurrency of 2: the third unit waits while two are running.\<close>

theorem in_flight_bounded_witness:
  "Semaphore (concurrency batch) = Inr 2
   \<and> int (in_flight (after batch hosts 2 [0, 1, 2])) \<le> concurrency batch
   \<and> tasks (after batch hosts 2 [0, 1, 2]) = [Running, Running, Waiting]"
proof -
  have s: "Semaphore (concurrency batch) = Inr 2"
    by (simp add: Semaphore_def batch_def)
  have t: "tasks (after batch hosts 2 [0, 1, 2]) = [Running, Running, Waiting]"
    by (simp add: after_def start_def bounded_request_step_def batch_def)
  from in_flight_bounded [OF s, of hosts "[0, 1, 2]"] s t show ?thesis by simp
qed

section \<open>C9: the pacing sleep\<close>

text \<open>
  Claim C9 as stated fails for the units of the scraper: the \<open>fetch\<close> of \<open>scrape_async\<close>
  calls the site three times and sleeps no pacing delay before any of the calls.
\<close>

theorem fetch_unpaced_counterexample:
  "invocations (fst (fetch test_scraper site_down ''https://httpbin.org'')) = 3
   \<and> pacings (fst (fetch test_scraper site_down ''https://httpbin.org'')) = []
   \<and> \<not> paced (fst (fetch test_scraper site_down ''https://httpbin.org''))"
  by (simp add: fetch_site_down invocations_def)

text \<open>
  Claim C9, amended. In \<open>make_request\<close> every call on the session is directly preceded by
  a pacing sleep; the pacing sleeps of a run are \<open>random.uniform\<close> of the delay range for the
  attempts 0, 1, 2, ... in turn, the first attempt included (a run of at least one attempt
  begins with the pacing sleep of the first); and each lies between the bounds of the range
  when the range is not inverted and \<open>random()\<close> yields values from 0 to 1. The units of
  the scraper, \<open>scrape_static\<close> and \<open>fetch\<close>, sleep no pacing delay.
\<close>

theorem pacing_before_every_attempt:
  "paced (fst (make_request ex w ep))
   \<and> (\<exists>n. pacings (fst (make_request ex w ep)) =
            map (\<lambda>a. uniform (delay_range ex) (rnd w a)) [0..<n])
   \<and> (method_upper w ep = Inr m \<and> range_stop (retry_count ex) = Inr rc \<and> 1 \<le> rc \<longrightarrow>
        hd (fst (make_request ex w ep)) = PaceSleep (uniform (delay_range ex) (rnd w 0)))
   \<and> (fst (delay_range ex) \<le> snd (delay_range ex) \<and> (\<forall>a. 0 \<le> rnd w a \<and> rnd w a \<le> 1) \<longrightarrow>
        (\<forall>d \<in> set (pacings (fst (make_request ex w ep))).
           fst (delay_range ex) \<le> d \<and> d \<le> snd (delay_range ex)))
   \<and> pacings (fst (scrape_static sc sw u)) = []
   \<and> pacings (fst (fetch sc sw u)) = []"
proof -
  have a: "paced (fst (make_request ex w ep))"
    using make_request_cases [of ex w ep] paced_attempts by auto
  have "\<exists>n. pacings (fst (make_request ex w ep)) =
            map (\<lambda>a. uniform (delay_range ex) (rnd w a)) [0..<n]"
  proof -
    from make_request_cases [of ex w ep] show ?thesis
    proof
      assume "\<exists>e. make_request ex w ep = ([], Inl e)"
      then have "pacings (fst (make_request ex w ep)) =
            map (\<lambda>a. uniform (delay_range ex) (rnd w a)) [0..<0]"
        by auto
      then show ?thesis by blast
    next
      assume "\<exists>m rc. method_upper w ep = Inr m \<and> range_stop (retry_count ex) = Inr rc
              \<and> make_request ex w ep = attempts_from ex w ep m rc 0"
      then obtain m rc where "make_request ex w ep = attempts_from ex w ep m rc 0" by blast
      then show ?thesis using pacings_attempts [of ex w ep m rc 0] by simp
    qed
  qed
  then obtain n where n: "pacings (fst (make_request ex w ep)) =
            map (\<lambda>a. uniform (delay_range ex) (rnd w a)) [0..<n]"
    by blast
  have c: "method_upper w ep = Inr m \<and> range_stop (retry_count ex) = Inr rc \<and> 1 \<le> rc \<longrightarrow>
        hd (fst (make_request ex w ep)) = PaceSleep (uniform (delay_range ex) (rnd w 0))"
    by (auto simp: make_request_loop hd_attempts)
  have d: "fst (delay_range ex) \<le> snd (delay_range ex) \<and> (\<forall>a. 0 \<le> rnd w a \<and> rnd w a \<le> 1) \<longrightarrow>
        (\<forall>d \<in> set (pacings (fst (make_request ex w ep))).
           fst (delay_range ex) \<le> d \<and> d \<le> snd (delay_range ex))"
    unfolding n using uniform_in_range [of "delay_range ex"] by auto
  have e: "pacings (fst (scrape_static sc sw u)) = []" "pacings (fst (fetch sc sw u)) = []"
    using scrape_static_cases [of sc sw u] fetch_cases [of sc sw u]
    by (auto simp: pacings_static pacings_fetch)
  from a n c d e show ?thesis by blast
qed

theorem pacing_before_every_attempt_witness:
  "paced (fst (make_request test_executor flaky test_endpoint))
   \<and> hd (fst (make_request test_executor flaky test_endpoint)) = PaceSleep (3 / 20)
   \<and> pacings (fst (make_request test_executor flaky test_endpoint)) = [3 / 20, 3 / 20, 3 / 20]
   \<and> list_all (\<lambda>d. 1 / 10 \<le> d \<and> d \<le> 2 / 10)
        (pacings (fst (make_request test_executor flaky test_endpoint)))"
proof -
  have rs: "range_stop (retry_count test_executor) = Inr 3"
    and rc: "(1::int) \<le> 3"
    and u: "uniform (delay_range test_executor) (rnd flaky 0) = 3 / 20"
    and r: "fst (delay_range test_executor) \<le> snd (delay_range test_executor)
            \<and> (\<forall>a. 0 \<le> rnd flaky a \<and> rnd flaky a \<le> 1)"
    and b: "fst (delay_range test_executor) = 1 / 10" "snd (delay_range test_executor) = 2 / 10"
    by (simp_all add: test_executor_def flaky_def uniform_def)
  have p: "pacings (fst (make_request test_executor flaky test_endpoint)) = [3 / 20, 3 / 20, 3 / 20]"
    unfolding make_request_loop [OF method_flaky rs]
    by (simp add: attempts_from.simps try_body_some [OF dispatch_test_endpoint]
        test_executor_def flaky_def uniform_def)
  show ?thesis
    using pacing_before_every_attempt [of test_executor flaky test_endpoint "''GET''" 3]
      method_flaky rs rc u r b p
    by (simp add: list_all_iff)
qed

section \<open>C10: a method that is none of the four\<close>

text \<open>
  Claim C10. When the method of the endpoint, upper-cased by \<open>str.upper\<close>, is none of GET,
  POST, PUT and DELETE, every attempt sleeps its pacing delay and fails with the
  \<open>ValueError\<close> of the unsupported method, which is caught like any other failure: as many
  attempts are made as the retry count says, each but the last followed by its backoff, no
  call reaches the session, and for a retry count of at least 1 the result is the error
  dictionary with that message.
\<close>

theorem unsupported_method_retried:
  assumes mu: "method_upper w ep = Inr m"
    and meth: "m \<notin> set [''GET'', ''POST'', ''PUT'', ''DELETE'']"
    and rs: "range_stop (retry_count ex) = Inr rc"
  shows "fst (make_request ex w ep) =
           concat (map (\<lambda>a. [PaceSleep (uniform (delay_range ex) (rnd w a)),
                              LogWarning (a + 1) (''Unsupported HTTP method: '' @ m)] @
                             (if int a < rc - 1 then [BackoffSleep (2 ^ a)]
                              else [LogError rc]))
                       [0..<nat rc])
       \<and> (1 \<le> rc \<longrightarrow>
            snd (make_request ex w ep) =
              Inr (Some [(''url'', PStr (ep_url ep)),
                         (''error'', PStr (''Unsupported HTTP method: '' @ m))]))"
proof (cases "1 \<le> rc")
  case False
  then show ?thesis by (simp add: make_request_loop [OF mu rs] attempts_from_exit)
next
  case rc: True
  note disp = meth [folded dispatch_None_iff [of ep m]]
  define n where "n = nat (rc - 1)"
  have f: "\<And>i. int i < rc \<Longrightarrow> isl (snd (try_body ex w ep m i))"
    using disp by (simp add: try_body_none)
  have n: "nat rc = Suc n" and lt: "\<not> int n < rc - 1"
    using rc by (simp_all add: n_def)
  define G where "G = (\<lambda>a. [PaceSleep (uniform (delay_range ex) (rnd w a)),
                              LogWarning (a + 1) (''Unsupported HTTP method: '' @ m)] @
                             (if int a < rc - 1 then [BackoffSleep (2 ^ a)]
                              else [LogError rc]))"
  have msg: "str_exn (unsupported_method m) = ''Unsupported HTTP method: '' @ m"
    by (simp add: unsupported_method_def)
  have pre: "map G [0..<n] = map (failed_round ex w ep m) [0..<n]"
    using disp by (auto simp: failed_round_none n_def G_def msg)
  have Gn: "G n = [PaceSleep (uniform (delay_range ex) (rnd w n)),
                   LogWarning (n + 1) (''Unsupported HTTP method: '' @ m),
                   LogError rc]"
    using lt by (simp add: G_def)
  have eq: "make_request ex w ep =
      (concat (map (failed_round ex w ep m) [0..<n]) @ G n,
       Inr (Some (error_dict (ep_url ep) (unsupported_method m))))"
    using all_fail [OF mu rs rc f] disp unfolding n_def [symmetric] Gn
    by (simp add: try_body_none msg)
  have tr: "fst (make_request ex w ep) = concat (map G [0..<nat rc])"
    unfolding n by (simp add: eq pre)
  have res: "snd (make_request ex w ep) =
              Inr (Some [(''url'', PStr (ep_url ep)),
                         (''error'', PStr (''Unsupported HTTP method: '' @ m))])"
    by (simp add: eq error_dict_def msg)
  show ?thesis using tr res unfolding G_def by blast
qed

theorem unsupported_method_retried_witness:
  "fst (make_request test_executor down patch_endpoint) =
     [PaceSleep (3 / 20), LogWarning 1 ''Unsupported HTTP method: PATCH'', BackoffSleep 1,
      PaceSleep (3 / 20), LogWarning 2 ''Unsupported HTTP method: PATCH'', BackoffSleep 2,
      PaceSleep (3 / 20), LogWarning 3 ''Unsupported HTTP method: PATCH'', LogError 3]
   \<and> snd (make_request test_executor down patch_endpoint) =
       Inr (Some [(''url'', PStr ''https://httpbin.org/patch''),
                  (''error'', PStr ''Unsupported HTTP method: PATCH'')])"
proof -
  have meth: "''PATCH'' \<notin> set [''GET'', ''POST'', ''PUT'', ''DELETE'']"
    by simp
  have rs: "range_stop (retry_count test_executor) = Inr 3"
    and rc: "(1::int) \<le> 3"
    and u: "\<And>a. uniform (delay_range test_executor) (rnd down a) = 3 / 20"
    and url: "ep_url patch_endpoint = ''https://httpbin.org/patch''"
    by (simp_all add: test_executor_def down_def uniform_def patch_endpoint_def)
  have up: "[0..<nat 3] = [0, 1, 2]" by (simp add: upt_rec)
  show ?thesis
    using unsupported_method_retried [OF method_down_patch meth rs]
    unfolding u url up
    by simp
qed

end
